theory Spec2Isabelle
  imports Main
begin

section \<open>Memory model\<close>

text \<open>
  The C program works on heap objects through pointers: the graph holds an array of
  node pointers, and every adjacency list holds node pointers too, so the \<open>seen\<close> flag
  written through one pointer is read through the others. The model keeps the node
  objects in an explicit store; a node pointer is the position of the object in the
  store, and \<open>None\<close> stands for \<open>NULL\<close> wherever the code can meet a null pointer.
  What C leaves undefined is an error value of the model.
\<close>

datatype error =
    Null_dereference
  | Out_of_bounds
  | Dangling_pointer
  | Uninitialised_read
  | Buffer_overflow
  | Signed_overflow
  | Exit_failure

type_synonym node_ptr = nat

text \<open>\<open>struct node\<close> of graph.c; the \<open>dlist\<close> of neighbours is a list of pointers.\<close>

record node =
  name :: string
  seen :: bool
  adjacent_nodes :: "node_ptr list"

text \<open>
  Modelled from the spec: array_1d.c is not among the sources. The spec calls it a
  fixed-capacity collection; graph.c uses it as an array of pointers with the index
  range \<open>low .. high\<close> given at creation, every slot empty (\<open>NULL\<close>) at first.
\<close>

record array_1d =
  low :: int
  high :: int
  vals :: "node_ptr option list"

text \<open>
  \<open>struct graph\<close> of graph.c: the pointer to the array and the node count. The field
  \<open>store\<close> is the memory that holds the node objects allocated for this graph.
\<close>

record graph =
  nodes :: "array_1d option"
  node_amount :: int
  store :: "node list"

definition deref :: "graph \<Rightarrow> node_ptr \<Rightarrow> error + node" where
  "deref g p = (if p < length (store g) then Inr (store g ! p) else Inl Dangling_pointer)"

section \<open>The array, list and queue of the course library\<close>

definition array_1d_create :: "int \<Rightarrow> int \<Rightarrow> array_1d" where
  "array_1d_create lo hi = \<lparr>low = lo, high = hi, vals = replicate (nat (hi - lo + 1)) None\<rparr>"

definition array_1d_low :: "array_1d option \<Rightarrow> error + int" where
  "array_1d_low ap = (case ap of None \<Rightarrow> Inl Null_dereference | Some a \<Rightarrow> Inr (low a))"

definition array_1d_high :: "array_1d option \<Rightarrow> error + int" where
  "array_1d_high ap = (case ap of None \<Rightarrow> Inl Null_dereference | Some a \<Rightarrow> Inr (high a))"

definition slot_ok :: "array_1d \<Rightarrow> int \<Rightarrow> bool" where
  "slot_ok a i = (low a \<le> i \<and> nat (i - low a) < length (vals a))"

definition array_1d_inspect_value :: "array_1d option \<Rightarrow> int \<Rightarrow> error + node_ptr option" where
  "array_1d_inspect_value ap i =
     (case ap of
        None \<Rightarrow> Inl Null_dereference
      | Some a \<Rightarrow> if slot_ok a i then Inr (vals a ! nat (i - low a)) else Inl Out_of_bounds)"

definition array_1d_has_value :: "array_1d option \<Rightarrow> int \<Rightarrow> error + bool" where
  "array_1d_has_value ap i =
     (case ap of
        None \<Rightarrow> Inl Null_dereference
      | Some a \<Rightarrow> if slot_ok a i then Inr (vals a ! nat (i - low a) \<noteq> None) else Inl Out_of_bounds)"

definition array_1d_set_value :: "array_1d option \<Rightarrow> node_ptr \<Rightarrow> int \<Rightarrow> error + array_1d" where
  "array_1d_set_value ap v i =
     (case ap of
        None \<Rightarrow> Inl Null_dereference
      | Some a \<Rightarrow>
          if slot_ok a i then Inr (a\<lparr>vals := (vals a)[nat (i - low a) := Some v]\<rparr>)
          else Inl Out_of_bounds)"

text \<open>
  Modelled from the spec: dlist.c is not among the sources. The spec has an ordered
  adjacency collection to which \<open>graph_insert_edge\<close> prepends: a \<open>dlist\<close> is a list, a
  position is the number of elements before it, and \<open>dlist_insert\<close> puts the value
  at the position.
\<close>

definition dlist_empty :: "'a list" where
  "dlist_empty = []"

definition dlist_first :: "'a list \<Rightarrow> nat" where
  "dlist_first l = 0"

definition dlist_insert :: "'a list \<Rightarrow> 'a \<Rightarrow> nat \<Rightarrow> 'a list" where
  "dlist_insert l v pos = take pos l @ v # drop pos l"

text \<open>
  Modelled from the spec: queue.c is not among the sources. The spec has a FIFO work
  queue: a list with its front at the head.
\<close>

definition queue_empty :: "'a list" where
  "queue_empty = []"

definition queue_is_empty :: "'a list \<Rightarrow> bool" where
  "queue_is_empty q = (q = [])"

definition queue_enqueue :: "'a list \<Rightarrow> 'a \<Rightarrow> 'a list" where
  "queue_enqueue q v = q @ [v]"

definition queue_front :: "'a list \<Rightarrow> 'a" where
  "queue_front q = hd q"

definition queue_dequeue :: "'a list \<Rightarrow> 'a list" where
  "queue_dequeue q = tl q"

section \<open>graph.c\<close>

definition nodes_are_equal :: "graph \<Rightarrow> node_ptr \<Rightarrow> node_ptr \<Rightarrow> error + bool" where
  "nodes_are_equal g n1 n2 =
     (case deref g n1 of
        Inl e \<Rightarrow> Inl e
      | Inr a \<Rightarrow> (case deref g n2 of Inl e \<Rightarrow> Inl e | Inr b \<Rightarrow> Inr (name a = name b)))"

definition graph_empty :: "int \<Rightarrow> graph" where
  "graph_empty max_nodes =
     \<lparr>nodes = Some (array_1d_create 0 max_nodes), node_amount = 0, store = []\<rparr>"

text \<open>The source compares the array pointer with 0: \<open>return g->nodes == 0;\<close>\<close>

definition graph_is_empty :: "graph \<Rightarrow> bool" where
  "graph_is_empty g = (nodes g = None)"

text \<open>
  \<open>graph_insert_node\<close>: \<open>malloc\<close> is taken to succeed; the new node object goes to the
  end of the store, and its pointer into the array at the index \<open>node_amount\<close>.
\<close>

definition graph_insert_node :: "graph \<Rightarrow> string \<Rightarrow> error + graph" where
  "graph_insert_node g s =
     (let new_node = \<lparr>name = s, seen = False, adjacent_nodes = dlist_empty\<rparr>;
          p = length (store g)
      in case array_1d_set_value (nodes g) p (node_amount g) of
           Inl e \<Rightarrow> Inl e
         | Inr a \<Rightarrow>
             Inr \<lparr>nodes = Some a, node_amount = node_amount g + 1,
                  store = store g @ [new_node]\<rparr>)"

fun find_node_loop :: "graph \<Rightarrow> string \<Rightarrow> int list \<Rightarrow> error + node_ptr option" where
  "find_node_loop g s [] = Inr None"
| "find_node_loop g s (i # js) =
     (case array_1d_inspect_value (nodes g) i of
        Inl e \<Rightarrow> Inl e
      | Inr None \<Rightarrow> Inl Null_dereference
      | Inr (Some current_node) \<Rightarrow>
          (case deref g current_node of
             Inl e \<Rightarrow> Inl e
           | Inr n \<Rightarrow> if name n = s then Inr (Some current_node) else find_node_loop g s js))"

definition graph_find_node :: "graph \<Rightarrow> string \<Rightarrow> error + node_ptr option" where
  "graph_find_node g s = find_node_loop g s [0 .. node_amount g - 1]"

definition graph_node_is_seen :: "graph \<Rightarrow> node_ptr \<Rightarrow> error + bool" where
  "graph_node_is_seen g n = (case deref g n of Inl e \<Rightarrow> Inl e | Inr x \<Rightarrow> Inr (seen x))"

definition graph_node_set_seen :: "graph \<Rightarrow> node_ptr \<Rightarrow> bool \<Rightarrow> error + graph" where
  "graph_node_set_seen g n s =
     (if n < length (store g)
      then Inr (g\<lparr>store := (store g)[n := (store g ! n)\<lparr>seen := s\<rparr>]\<rparr>)
      else Inl Dangling_pointer)"

fun reset_seen_loop :: "graph \<Rightarrow> int list \<Rightarrow> error + graph" where
  "reset_seen_loop g [] = Inr g"
| "reset_seen_loop g (node_idx # js) =
     (case array_1d_has_value (nodes g) node_idx of
        Inl e \<Rightarrow> Inl e
      | Inr False \<Rightarrow> reset_seen_loop g js
      | Inr True \<Rightarrow>
          (case array_1d_inspect_value (nodes g) node_idx of
             Inl e \<Rightarrow> Inl e
           | Inr None \<Rightarrow> Inl Null_dereference
           | Inr (Some curr_node) \<Rightarrow>
               (case graph_node_set_seen g curr_node False of
                  Inl e \<Rightarrow> Inl e
                | Inr g' \<Rightarrow> reset_seen_loop g' js)))"

definition graph_reset_seen :: "graph \<Rightarrow> error + graph" where
  "graph_reset_seen g = (let num_nodes = node_amount g in reset_seen_loop g [0 .. num_nodes - 1])"

definition graph_insert_edge :: "graph \<Rightarrow> node_ptr \<Rightarrow> node_ptr \<Rightarrow> error + graph" where
  "graph_insert_edge g n1 n2 =
     (case deref g n1 of
        Inl e \<Rightarrow> Inl e
      | Inr x \<Rightarrow>
          (let insert_pos = dlist_first (adjacent_nodes x)
           in Inr (g\<lparr>store := (store g)
                [n1 := x\<lparr>adjacent_nodes := dlist_insert (adjacent_nodes x) n2 insert_pos\<rparr>]\<rparr>)))"

fun choose_loop :: "array_1d option \<Rightarrow> int list \<Rightarrow> error + node_ptr option" where
  "choose_loop ap [] = Inr None"
| "choose_loop ap (i # js) =
     (case array_1d_has_value ap i of
        Inl e \<Rightarrow> Inl e
      | Inr True \<Rightarrow> array_1d_inspect_value ap i
      | Inr False \<Rightarrow> choose_loop ap js)"

definition graph_choose_node :: "graph \<Rightarrow> error + node_ptr option" where
  "graph_choose_node g =
     (if node_amount g > 0
      then (case array_1d_low (nodes g) of
              Inl e \<Rightarrow> Inl e
            | Inr lo \<Rightarrow>
                (case array_1d_high (nodes g) of
                   Inl e \<Rightarrow> Inl e
                 | Inr hi \<Rightarrow> choose_loop (nodes g) [lo .. hi]))
      else Inr None)"

definition graph_neighbours :: "graph \<Rightarrow> node_ptr \<Rightarrow> error + node_ptr list" where
  "graph_neighbours g n = (case deref g n of Inl e \<Rightarrow> Inl e | Inr x \<Rightarrow> Inr (adjacent_nodes x))"

section \<open>is\_connected.c: reading the file\<close>

definition MAX_INPUT_LENGTH :: nat where
  "MAX_INPUT_LENGTH = 500"

definition MAX_NODE_NAME_LENGTH :: int where
  "MAX_NODE_NAME_LENGTH = 40"

definition MAX_NODE_CHAR_LENGTH :: nat where
  "MAX_NODE_CHAR_LENGTH = 41"

definition INT_MAX :: int where
  "INT_MAX = 2147483647"

definition LONG_MAX :: int where
  "LONG_MAX = 9223372036854775807"

text \<open>\<open>struct graph_edges\<close>: two buffers of 41 characters, read as C strings.\<close>

record graph_edges =
  src :: string
  dest :: string

text \<open>
  An open \<open>FILE *\<close> is the text that is still unread (a text file, without NUL
  characters). \<open>fgets\<close> with a buffer of \<open>n\<close> characters takes at most \<open>n - 1\<close> of
  them and stops after a newline; at the end of the file it returns \<open>NULL\<close>.
\<close>

fun fgets_chars :: "nat \<Rightarrow> string \<Rightarrow> string \<times> string" where
  "fgets_chars 0 fp = ([], fp)"
| "fgets_chars (Suc n) [] = ([], [])"
| "fgets_chars (Suc n) (c # cs) =
     (if c = CHR ''\<newline>'' then ([c], cs)
      else (case fgets_chars n cs of (line, rest) \<Rightarrow> (c # line, rest)))"

definition fgets :: "nat \<Rightarrow> string \<Rightarrow> (string \<times> string) option" where
  "fgets n fp = (if fp = [] then None else Some (fgets_chars (n - 1) fp))"

definition is_digit :: "char \<Rightarrow> bool" where
  "is_digit c = (48 \<le> (of_char c :: nat) \<and> (of_char c :: nat) \<le> 57)"

text \<open>\<open>isalnum\<close> in the C locale.\<close>

definition isalnum :: "char \<Rightarrow> bool" where
  "isalnum c =
     (let k = (of_char c :: nat)
      in (48 \<le> k \<and> k \<le> 57) \<or> (65 \<le> k \<and> k \<le> 90) \<or> (97 \<le> k \<and> k \<le> 122))"

text \<open>\<open>isspace\<close>, as \<open>%s\<close> of \<open>sscanf\<close> uses it: space and the characters 9 to 13.\<close>

definition isspace :: "char \<Rightarrow> bool" where
  "isspace c = (let k = (of_char c :: nat) in k = 32 \<or> (9 \<le> k \<and> k \<le> 13))"

text \<open>
  \<open>strtol(s, NULL, 10)\<close> on a string whose first character is a digit (the only call
  of the source): the value of the leading digits, \<open>LONG_MAX\<close> when it is out of range.
\<close>

definition strtol :: "string \<Rightarrow> int" where
  "strtol s =
     min LONG_MAX
       (foldl (\<lambda>acc c. acc * 10 + (int (of_char c) - 48)) 0 (takeWhile is_digit s))"

text \<open>The assignment of a \<open>long\<close> to an \<open>int\<close> keeps the low 32 bits (gcc).\<close>

definition int_of_long :: "int \<Rightarrow> int" where
  "int_of_long v = (v + 2147483648) mod 4294967296 - 2147483648"

text \<open>Multiplication of two \<open>int\<close>s; leaving the range of \<open>int\<close> is undefined in C.\<close>

definition int_times :: "int \<Rightarrow> int \<Rightarrow> error + int" where
  "int_times a b =
     (if - INT_MAX - 1 \<le> a * b \<and> a * b \<le> INT_MAX then Inr (a * b) else Inl Signed_overflow)"

text \<open>
  The loop of \<open>get_number_of_edges\<close>: the result is \<open>foundEdges\<close>, \<open>edgeCount\<close> and the
  file position after the loop.
\<close>

function read_edge_count :: "string \<Rightarrow> bool \<times> int \<times> string" where
  "read_edge_count fp =
     (case fgets MAX_INPUT_LENGTH fp of
        None \<Rightarrow> (False, 0, fp)
      | Some (info_from_file, fp') \<Rightarrow>
          (case info_from_file of
             [] \<Rightarrow> read_edge_count fp'
           | c # cs \<Rightarrow>
               if is_digit c \<and> last info_from_file = CHR ''\<newline>''
               then (True, int_of_long (strtol (butlast info_from_file)), fp')
               else read_edge_count fp'))"
  by pat_completeness auto

definition get_number_of_edges :: "string \<Rightarrow> error + int \<times> string" where
  "get_number_of_edges fp =
     (case read_edge_count fp of
        (foundEdges, edgeCount, fp') \<Rightarrow>
          if foundEdges \<and> edgeCount > 0
          then (case int_times edgeCount 2 of Inl e \<Rightarrow> Inl e | Inr n \<Rightarrow> Inr (n, fp'))
          else Inr (0, fp'))"

text \<open>
  \<open>sscanf(line, "%s%s", src, dest)\<close>: each \<open>%s\<close> skips white space and stores the
  characters up to the next white space. A buffer that no token was stored in keeps
  its indeterminate content (\<open>None\<close>); a token of more than 40 characters does not fit
  the buffer of 41.
\<close>

definition scan_token :: "string \<Rightarrow> string \<times> string" where
  "scan_token s =
     (let s1 = dropWhile isspace s
      in (takeWhile (\<lambda>c. \<not> isspace c) s1, dropWhile (\<lambda>c. \<not> isspace c) s1))"

definition sscanf_two :: "string \<Rightarrow> error + string option \<times> string option" where
  "sscanf_two line =
     (case scan_token line of
        (t1, r1) \<Rightarrow>
          if t1 = [] then Inr (None, None)
          else if length t1 \<ge> MAX_NODE_CHAR_LENGTH then Inl Buffer_overflow
          else (case scan_token r1 of
                  (t2, r2) \<Rightarrow>
                    if t2 = [] then Inr (Some t1, None)
                    else if length t2 \<ge> MAX_NODE_CHAR_LENGTH then Inl Buffer_overflow
                    else Inr (Some t1, Some t2)))"

text \<open>
  One \<open>while\<close> loop of \<open>validate_node_names\<close>: \<open>None\<close> when a character is not
  alphanumeric, otherwise the counter at the end of the string.
\<close>

fun count_alnum :: "string \<Rightarrow> int \<Rightarrow> int option" where
  "count_alnum [] k = Some k"
| "count_alnum (c # cs) k = (if \<not> isalnum c then None else count_alnum cs (k + 1))"

definition validate_node_names :: "string option \<Rightarrow> string option \<Rightarrow> error + bool" where
  "validate_node_names src_buf dest_buf =
     (case src_buf of
        None \<Rightarrow> Inl Uninitialised_read
      | Some s \<Rightarrow>
          (case count_alnum s 0 of
             None \<Rightarrow> Inr False
           | Some scource_name \<Rightarrow>
               (case dest_buf of
                  None \<Rightarrow> Inl Uninitialised_read
                | Some d \<Rightarrow>
                    (case count_alnum d 0 of
                       None \<Rightarrow> Inr False
                     | Some destination_name \<Rightarrow>
                         if scource_name > MAX_NODE_NAME_LENGTH then Inr False
                         else if destination_name > MAX_NODE_NAME_LENGTH then Inr False
                         else Inr True))))"

definition create_edge :: "string \<Rightarrow> string \<Rightarrow> graph_edges" where
  "create_edge s d =
     \<lparr>src = take (MAX_NODE_CHAR_LENGTH - 1) s, dest = take (MAX_NODE_CHAR_LENGTH - 1) d\<rparr>"

text \<open>
  Modelled from the spec: list.c is not among the sources. A list of edge records is a
  list, and a position is the number of elements before it. The spec has the Loader
  append each validated pair to an ordered sequence: \<open>list_insert\<close> puts the value
  at the position and returns the position at which the next record goes, after it.
  Since the source of the list is missing, the Loader below takes the insertion as its
  parameter \<open>ins\<close>. \<open>list_insert_before\<close> is the other behaviour a list can have
  here: the position returned is the one of the new element, so that the next record
  goes before it and the records end up in the reverse order of the file.
\<close>

definition list_first :: "'a list \<Rightarrow> nat" where
  "list_first l = 0"

definition list_insert :: "'a list \<Rightarrow> 'a \<Rightarrow> nat \<Rightarrow> 'a list \<times> nat" where
  "list_insert l v pos = (take pos l @ v # drop pos l, pos + 1)"

definition list_insert_before :: "'a list \<Rightarrow> 'a \<Rightarrow> nat \<Rightarrow> 'a list \<times> nat" where
  "list_insert_before l v pos = (take pos l @ v # drop pos l, pos)"

type_synonym list_inserter = "graph_edges list \<Rightarrow> graph_edges \<Rightarrow> nat \<Rightarrow> graph_edges list \<times> nat"

function add_edges_loop ::
  "list_inserter \<Rightarrow> string \<Rightarrow> graph_edges list \<Rightarrow> nat \<Rightarrow> error + graph_edges list" where
  "add_edges_loop ins fp l current_position =
     (case fgets MAX_INPUT_LENGTH fp of
        None \<Rightarrow> Inr l
      | Some (info_from_file, fp') \<Rightarrow>
          (case info_from_file of
             [] \<Rightarrow> add_edges_loop ins fp' l current_position
           | c # cs \<Rightarrow>
               if c \<noteq> CHR ''#'' \<and> c \<noteq> CHR ''\<newline>''
               then (case sscanf_two info_from_file of
                       Inl e \<Rightarrow> Inl e
                     | Inr (src_buf, dest_buf) \<Rightarrow>
                         (case validate_node_names src_buf dest_buf of
                            Inl e \<Rightarrow> Inl e
                          | Inr False \<Rightarrow> Inl Exit_failure
                          | Inr True \<Rightarrow>
                              (case src_buf of
                                 None \<Rightarrow> Inl Uninitialised_read
                               | Some s \<Rightarrow>
                                   (case dest_buf of
                                      None \<Rightarrow> Inl Uninitialised_read
                                    | Some d \<Rightarrow>
                                        (case ins l (create_edge s d) current_position of
                                           (l', p') \<Rightarrow> add_edges_loop ins fp' l' p')))))
               else add_edges_loop ins fp' l current_position))"
  by pat_completeness auto

definition add_edges_to_list ::
  "list_inserter \<Rightarrow> string \<Rightarrow> graph_edges list \<Rightarrow> error + graph_edges list" where
  "add_edges_to_list ins fp l = add_edges_loop ins fp l (list_first l)"

text \<open>
  \<open>info_from_file\<close>: the argument is the text of the file named on the command line,
  \<open>None\<close> when no file is named or it cannot be opened. \<open>exit(EXIT_FAILURE)\<close> is the
  error \<open>Exit_failure\<close>.
\<close>

definition info_from_file ::
  "list_inserter \<Rightarrow> string option \<Rightarrow> graph_edges list \<Rightarrow> error + int \<times> graph_edges list" where
  "info_from_file ins file l =
     (case file of
        None \<Rightarrow> Inl Exit_failure
      | Some fp \<Rightarrow>
          (case get_number_of_edges fp of
             Inl e \<Rightarrow> Inl e
           | Inr (edges_amount, fp1) \<Rightarrow>
               if edges_amount = 0 then Inl Exit_failure
               else (case add_edges_to_list ins fp1 l of
                       Inl e \<Rightarrow> Inl e
                     | Inr l' \<Rightarrow>
                         (case int_times edges_amount 2 of
                            Inl e \<Rightarrow> Inl e
                          | Inr n \<Rightarrow> Inr (n, l')))))"

section \<open>is\_connected.c: building the graph\<close>

text \<open>
  The block that \<open>create_graph\<close> writes out for each end of an edge: look the name up,
  insert the node when it is missing and look it up again.
\<close>

definition find_or_insert :: "graph \<Rightarrow> string \<Rightarrow> error + graph \<times> node_ptr option" where
  "find_or_insert g s =
     (case graph_find_node g s of
        Inl e \<Rightarrow> Inl e
      | Inr (Some n) \<Rightarrow> Inr (g, Some n)
      | Inr None \<Rightarrow>
          (case graph_insert_node g s of
             Inl e \<Rightarrow> Inl e
           | Inr g' \<Rightarrow>
               (case graph_find_node g' s of Inl e \<Rightarrow> Inl e | Inr n \<Rightarrow> Inr (g', n))))"

text \<open>
  A destination that is \<open>NULL\<close> cannot arise after \<open>find_or_insert\<close>; the model reports
  it as an error instead of storing a null pointer in the adjacency list.
\<close>

fun create_graph :: "graph \<Rightarrow> graph_edges list \<Rightarrow> error + graph" where
  "create_graph g [] = Inr g"
| "create_graph g (edge # rest) =
     (case find_or_insert g (src edge) of
        Inl e \<Rightarrow> Inl e
      | Inr (g1, src_node) \<Rightarrow>
          (case find_or_insert g1 (dest edge) of
             Inl e \<Rightarrow> Inl e
           | Inr (g2, dest_node) \<Rightarrow>
               (case (src_node, dest_node) of
                  (Some n1, Some n2) \<Rightarrow>
                    (case graph_insert_edge g2 n1 n2 of
                       Inl e \<Rightarrow> Inl e
                     | Inr g3 \<Rightarrow> create_graph g3 rest)
                | _ \<Rightarrow> Inl Null_dereference)))"

definition prepare_graph ::
  "list_inserter \<Rightarrow> string option \<Rightarrow> graph_edges list \<Rightarrow> error + graph" where
  "prepare_graph ins file l =
     (case info_from_file ins file l of
        Inl e \<Rightarrow> Inl e
      | Inr (edges_amount, l') \<Rightarrow> create_graph (graph_empty edges_amount) l')"

section \<open>is\_connected.c: the breadth-first search\<close>

definition visit_node :: "graph \<Rightarrow> node_ptr \<Rightarrow> node_ptr list \<Rightarrow> error + graph \<times> node_ptr list" where
  "visit_node g n q =
     (case graph_node_is_seen g n of
        Inl e \<Rightarrow> Inl e
      | Inr True \<Rightarrow> Inr (g, q)
      | Inr False \<Rightarrow>
          (case graph_node_set_seen g n True of
             Inl e \<Rightarrow> Inl e
           | Inr g' \<Rightarrow> Inr (g', queue_enqueue q n)))"

definition destination_found :: "graph \<Rightarrow> node_ptr list \<Rightarrow> error + bool \<times> graph" where
  "destination_found g q =
     (case graph_reset_seen g of Inl e \<Rightarrow> Inl e | Inr g' \<Rightarrow> Inr (True, g'))"

text \<open>The first inner loop of \<open>find_path\<close>: every element goes to the front of the copy.\<close>

fun copy_neighbours :: "node_ptr list \<Rightarrow> node_ptr list \<Rightarrow> node_ptr list" where
  "copy_neighbours [] neighbourSetCopy = neighbourSetCopy"
| "copy_neighbours (element # rest) neighbourSetCopy =
     copy_neighbours rest (dlist_insert neighbourSetCopy element (dlist_first neighbourSetCopy))"

text \<open>
  The second inner loop: \<open>True\<close> when a neighbour has the name of the destination,
  otherwise the graph and the queue after visiting every neighbour.
\<close>

fun scan_neighbours ::
  "graph \<Rightarrow> node_ptr \<Rightarrow> node_ptr list \<Rightarrow> node_ptr list \<Rightarrow> error + bool \<times> graph \<times> node_ptr list" where
  "scan_neighbours g dest_node q [] = Inr (False, g, q)"
| "scan_neighbours g dest_node q (neighbourNode # rest) =
     (case nodes_are_equal g neighbourNode dest_node of
        Inl e \<Rightarrow> Inl e
      | Inr True \<Rightarrow> Inr (True, g, q)
      | Inr False \<Rightarrow>
          (case visit_node g neighbourNode q of
             Inl e \<Rightarrow> Inl e
           | Inr (g', q') \<Rightarrow> scan_neighbours g' dest_node q' rest))"

text \<open>The outer loop of \<open>find_path\<close>, with the two exits after it.\<close>

function bfs_loop :: "graph \<Rightarrow> node_ptr \<Rightarrow> node_ptr list \<Rightarrow> error + bool \<times> graph" where
  "bfs_loop g dest_node q =
     (if queue_is_empty q
      then (case graph_reset_seen g of Inl e \<Rightarrow> Inl e | Inr g' \<Rightarrow> Inr (False, g'))
      else
        (let newNode = queue_front q;
             q1 = queue_dequeue q
         in case graph_neighbours g newNode of
              Inl e \<Rightarrow> Inl e
            | Inr neighbourSet \<Rightarrow>
                (let neighbourSetCopy = copy_neighbours neighbourSet dlist_empty
                 in case scan_neighbours g dest_node q1 neighbourSetCopy of
                      Inl e \<Rightarrow> Inl e
                    | Inr (True, g', q') \<Rightarrow> destination_found g' q'
                    | Inr (False, g', q') \<Rightarrow> bfs_loop g' dest_node q')))"
  by pat_completeness auto

definition find_path :: "graph \<Rightarrow> node_ptr \<Rightarrow> node_ptr \<Rightarrow> error + bool \<times> graph" where
  "find_path g src_node dest_node =
     (case graph_node_set_seen g src_node True of
        Inl e \<Rightarrow> Inl e
      | Inr g1 \<Rightarrow> bfs_loop g1 dest_node (queue_enqueue queue_empty src_node))"

text \<open>\<open>find_and_show_path\<close>: the result is the text printed and the graph afterwards.\<close>

definition find_and_show_path :: "graph \<Rightarrow> string \<Rightarrow> string \<Rightarrow> error + string \<times> graph" where
  "find_and_show_path g origin destination =
     (case graph_find_node g origin of
        Inl e \<Rightarrow> Inl e
      | Inr scource_node \<Rightarrow>
          (case graph_find_node g destination of
             Inl e \<Rightarrow> Inl e
           | Inr destination_node \<Rightarrow>
               (case (scource_node, destination_node) of
                  (Some s, Some d) \<Rightarrow>
                    (case find_path g s d of
                       Inl e \<Rightarrow> Inl e
                     | Inr (True, g') \<Rightarrow>
                         Inr (''There is a path from '' @ origin @ '' to '' @ destination
                              @ ''.\<newline>\<newline>'', g')
                     | Inr (False, g') \<Rightarrow>
                         Inr (''There is no path from '' @ origin @ '' to '' @ destination
                              @ ''.\<newline>\<newline>'', g'))
                | _ \<Rightarrow> Inr (''One or both nodes do not exist. Try again. \<newline>'', g))))"

section \<open>Well-formed graphs and reachability\<close>

text \<open>The number of nodes whose flag is clear, for the termination of \<open>find_path\<close>.\<close>

definition unseen_count :: "graph \<Rightarrow> nat" where
  "unseen_count g = length (filter (\<lambda>n. \<not> seen n) (store g))"

text \<open>
  The graphs the program builds keep three invariants: every pointer in an adjacency
  list refers to a node object, node names are unique, and the node objects are
  exactly the ones the array holds at the positions below the node count.
\<close>

definition valid_ptrs :: "graph \<Rightarrow> bool" where
  "valid_ptrs g = (\<forall>n \<in> set (store g). \<forall>p \<in> set (adjacent_nodes n). p < length (store g))"

definition unique_names :: "graph \<Rightarrow> bool" where
  "unique_names g = distinct (map name (store g))"

definition slots_valid :: "array_1d \<Rightarrow> nat \<Rightarrow> int list \<Rightarrow> bool" where
  "slots_valid a n js =
     (\<forall>i \<in> set js. slot_ok a i \<and>
        (case vals a ! nat (i - low a) of None \<Rightarrow> True | Some p \<Rightarrow> p < n))"

definition stored :: "graph \<Rightarrow> bool" where
  "stored g =
     (case nodes g of
        None \<Rightarrow> False
      | Some a \<Rightarrow>
          0 \<le> node_amount g \<and>
          slots_valid a (length (store g)) [0 .. node_amount g - 1] \<and>
          (\<forall>p \<in> set [0 ..< length (store g)].
             \<exists>i \<in> set [0 .. node_amount g - 1]. vals a ! nat (i - low a) = Some p))"

definition wf_graph :: "graph \<Rightarrow> bool" where
  "wf_graph g = (valid_ptrs g \<and> unique_names g \<and> stored g)"

text \<open>The state between two queries: no node is marked seen.\<close>

definition all_unseen :: "graph \<Rightarrow> bool" where
  "all_unseen g = (\<forall>n \<in> set (store g). \<not> seen n)"

text \<open>
  The recorded edge set: \<open>(u, v)\<close> when the adjacency list of \<open>u\<close> holds \<open>v\<close>. A directed
  walk from \<open>a\<close> to \<open>b\<close> is \<open>(a, b) \<in> (edges g)\<^sup>*\<close>, one of at least one edge
  \<open>(a, b) \<in> (edges g)\<^sup>+\<close>.
\<close>

definition edges :: "graph \<Rightarrow> (node_ptr \<times> node_ptr) set" where
  "edges g = {(u, v). u < length (store g) \<and> v \<in> set (adjacent_nodes (store g ! u))}"

text \<open>
  The graph with every flag cleared; two graphs of the same shape differ in their
  flags only. \<open>seen_set\<close> is the set of nodes marked seen.
\<close>

definition cleared :: "graph \<Rightarrow> graph" where
  "cleared g = g\<lparr>store := map (\<lambda>n. n\<lparr>seen := False\<rparr>) (store g)\<rparr>"

definition same_shape :: "graph \<Rightarrow> graph \<Rightarrow> bool" where
  "same_shape g g' =
     (nodes g' = nodes g \<and> node_amount g' = node_amount g \<and>
      map name (store g') = map name (store g) \<and>
      map adjacent_nodes (store g') = map adjacent_nodes (store g))"

definition seen_set :: "graph \<Rightarrow> node_ptr set" where
  "seen_set g = {p. p < length (store g) \<and> seen (store g ! p)}"

text \<open>
  The invariant of the search, for the seen nodes \<open>S\<close> and the queued nodes \<open>Q\<close>: a
  seen node that is not queued has all its successors seen, and none of them is the
  destination.
\<close>

definition frontier_inv :: "(node_ptr \<times> node_ptr) set \<Rightarrow> node_ptr \<Rightarrow> node_ptr set \<Rightarrow> node_ptr set \<Rightarrow> bool" where
  "frontier_inv E d S Q = (Q \<subseteq> S \<and> (\<forall>u \<in> S - Q. \<forall>v. (u, v) \<in> E \<longrightarrow> v \<in> S \<and> v \<noteq> d))"

text \<open>A sequence of calls of \<open>graph_insert_edge\<close>, in order.\<close>

fun insert_edges :: "graph \<Rightarrow> (node_ptr \<times> node_ptr) list \<Rightarrow> error + graph" where
  "insert_edges g [] = Inr g"
| "insert_edges g ((n1, n2) # es) =
     (case graph_insert_edge g n1 n2 of Inl e \<Rightarrow> Inl e | Inr g' \<Rightarrow> insert_edges g' es)"

text \<open>The file of the loader example, and the graph that the loader builds from it.\<close>

definition abc_file :: string where
  "abc_file = ''2\<newline>A B\<newline>B C\<newline>''"

definition abc_graph :: graph where
  "abc_graph =
     \<lparr>nodes = Some \<lparr>low = 0, high = 8,
                     vals = [Some 0, Some 1, Some 2, None, None, None, None, None, None]\<rparr>,
      node_amount = 3,
      store = [\<lparr>name = ''A'', seen = False, adjacent_nodes = [1]\<rparr>,
               \<lparr>name = ''B'', seen = False, adjacent_nodes = [2]\<rparr>,
               \<lparr>name = ''C'', seen = False, adjacent_nodes = []\<rparr>]\<rparr>"

text \<open>The graph built from the same file when the records are taken in reverse order.\<close>

definition bca_graph :: graph where
  "bca_graph =
     \<lparr>nodes = Some \<lparr>low = 0, high = 8,
                     vals = [Some 0, Some 1, Some 2, None, None, None, None, None, None]\<rparr>,
      node_amount = 3,
      store = [\<lparr>name = ''B'', seen = False, adjacent_nodes = [1]\<rparr>,
               \<lparr>name = ''C'', seen = False, adjacent_nodes = []\<rparr>,
               \<lparr>name = ''A'', seen = False, adjacent_nodes = [0]\<rparr>]\<rparr>"

text \<open>What \<open>graph_empty\<close> was given as \<open>max_nodes\<close>, and the number of slots of the array.\<close>

definition graph_capacity :: "graph \<Rightarrow> int option" where
  "graph_capacity g = (case nodes g of None \<Rightarrow> None | Some a \<Rightarrow> Some (high a))"

definition graph_slots :: "graph \<Rightarrow> nat option" where
  "graph_slots g = (case nodes g of None \<Rightarrow> None | Some a \<Rightarrow> Some (length (vals a)))"

text \<open>
  The buffers that successive calls of \<open>fgets\<close> return, and the two tests on a line
  that tell whether \<open>add_edges_to_list\<close> reads it as an edge with a name that is not
  alphanumeric.
\<close>

function file_lines :: "string \<Rightarrow> string list" where
  "file_lines fp =
     (case fgets MAX_INPUT_LENGTH fp of
        None \<Rightarrow> []
      | Some (line, fp') \<Rightarrow> line # file_lines fp')"
  by pat_completeness auto

definition is_edge_line :: "string \<Rightarrow> bool" where
  "is_edge_line line =
     (case line of [] \<Rightarrow> False | c # cs \<Rightarrow> c \<noteq> CHR ''#'' \<and> c \<noteq> CHR ''\<newline>'')"

definition names_not_alnum :: "string \<Rightarrow> bool" where
  "names_not_alnum line =
     (case scan_token line of
        (t1, r1) \<Rightarrow>
          (case scan_token r1 of
             (t2, r2) \<Rightarrow> \<not> list_all isalnum t1 \<or> \<not> list_all isalnum t2))"

text \<open>Example inputs.\<close>

definition one_edge_file :: string where
  "one_edge_file = ''1\<newline>A B\<newline>''"

definition one_edge_graph :: graph where
  "one_edge_graph =
     \<lparr>nodes = Some \<lparr>low = 0, high = 4, vals = [Some 0, Some 1, None, None, None]\<rparr>,
      node_amount = 2,
      store = [\<lparr>name = ''A'', seen = False, adjacent_nodes = [1]\<rparr>,
               \<lparr>name = ''B'', seen = False, adjacent_nodes = []\<rparr>]\<rparr>"

definition bad_name_file :: string where
  "bad_name_file = ''2\<newline>A B\<newline>a-b C\<newline>''"


definition abc_graph_A_seen :: graph where
  "abc_graph_A_seen =
     abc_graph\<lparr>store := (store abc_graph)[0 := (store abc_graph ! 0)\<lparr>seen := True\<rparr>]\<rparr>"

section \<open>Termination of the loops\<close>

lemma fgets_chars_shorter:
  "0 < n \<Longrightarrow> fp \<noteq> [] \<Longrightarrow> length (snd (fgets_chars n fp)) < length fp"
proof (induction n fp rule: fgets_chars.induct)
  case (3 n c cs)
  show ?case
  proof (cases n)
    case 0
    then show ?thesis by simp
  next
    case (Suc m)
    then show ?thesis
      using "3.IH" by (cases cs) (auto split: prod.splits)
  qed
qed simp_all

lemma fgets_shorter:
  "fgets MAX_INPUT_LENGTH fp = Some x \<Longrightarrow> length (snd x) < length fp"
  using fgets_chars_shorter [of "MAX_INPUT_LENGTH - 1" fp]
  by (auto simp: fgets_def MAX_INPUT_LENGTH_def split: if_splits)

termination read_edge_count
proof (relation "measure length", goal_cases)
  case 1
  show ?case by simp
next
  case (2 fp x line fp')
  then show ?case using fgets_shorter [of fp x] by auto
next
  case (3 fp x line fp' c cs)
  then show ?case using fgets_shorter [of fp x] by auto
qed

termination add_edges_loop
proof (relation "measure (\<lambda>(ins, fp, l, p). length fp)", goal_cases)
  case 1
  show ?case by simp
next
  case (2 ins fp l p x line fp')
  then show ?case using fgets_shorter [of fp x] by auto
next
  case (3 ins fp l p x line fp')
  then show ?case using fgets_shorter [of fp x] by auto
next
  case (4 ins fp l p x line fp')
  then show ?case using fgets_shorter [of fp x] by auto
qed

lemma unseen_update:
  "n < length xs \<Longrightarrow> \<not> seen (xs ! n) \<Longrightarrow>
   Suc (length (filter (\<lambda>n. \<not> seen n) (xs[n := (xs ! n)\<lparr>seen := True\<rparr>]))) =
   length (filter (\<lambda>n. \<not> seen n) xs)"
proof (induction xs arbitrary: n)
  case Nil
  then show ?case by simp
next
  case (Cons x xs)
  then show ?case by (cases n) auto
qed

lemma visit_node_measure:
  "visit_node g n q = Inr (g', q') \<Longrightarrow>
   2 * unseen_count g' + length q' \<le> 2 * unseen_count g + length q"
  using unseen_update [of n "store g"]
  by (auto simp: visit_node_def graph_node_is_seen_def graph_node_set_seen_def deref_def
      unseen_count_def queue_enqueue_def split: sum.splits bool.splits if_splits)

lemma scan_neighbours_measure:
  "scan_neighbours g d q ns = Inr (b, g', q') \<Longrightarrow>
   2 * unseen_count g' + length q' \<le> 2 * unseen_count g + length q"
proof (induction ns arbitrary: g q)
  case Nil
  then show ?case by simp
next
  case (Cons n ns)
  then show ?case
    by (fastforce split: sum.splits bool.splits prod.splits dest: visit_node_measure)
qed

lemma bfs_loop_total: "All bfs_loop_dom"
proof (relation "measure (\<lambda>(g, d, q). 2 * unseen_count g + length q)", goal_cases)
  case 1
  show ?case by simp
next
  case (2 g d q newNode q1 neighbourSet neighbourSetCopy r b rest g' q')
  then have "scan_neighbours g d (tl q) neighbourSetCopy = Inr (b, g', q')"
    by (simp add: queue_dequeue_def)
  from scan_neighbours_measure [OF this] 2(1) show ?case
    by (cases q) (simp_all add: queue_is_empty_def)
qed

termination bfs_loop
  by (rule bfs_loop_total)

termination file_lines
proof (relation "measure length", goal_cases)
  case 1
  show ?case by simp
next
  case (2 fp x line fp')
  then show ?case using fgets_shorter [of fp x] by auto
qed

declare bfs_loop.simps [simp del]
declare read_edge_count.simps [simp del]
declare add_edges_loop.simps [simp del]
declare file_lines.simps [simp del]


section \<open>Reachability through a frontier\<close>

lemma frontier_inv_step:
  assumes "frontier_inv E d S (insert u Q1)" "(u, d) \<notin> E"
  shows "frontier_inv E d (S \<union> E `` {u}) (Q1 \<union> (E `` {u} - S))"
  using assms unfolding frontier_inv_def by blast

lemma frontier_inv_path:
  assumes inv: "frontier_inv E d S Q" and p: "(x, d) \<in> E\<^sup>+" and x: "x \<in> S"
  shows "\<exists>w \<in> Q. (w, d) \<in> E\<^sup>+"
  using p x
proof (induction rule: converse_trancl_induct)
  case (base y)
  with inv show ?case unfolding frontier_inv_def by blast
next
  case (step y z)
  show ?case
  proof (cases "y \<in> Q")
    case True
    moreover have "(y, d) \<in> E\<^sup>+" using step.hyps by (meson trancl_into_trancl2)
    ultimately show ?thesis by blast
  next
    case False
    with inv step.prems step.hyps(1) have "z \<in> S" unfolding frontier_inv_def by blast
    then show ?thesis by (rule step.IH)
  qed
qed

lemma frontier_step_equiv:
  assumes inv: "frontier_inv E d S (insert u Q1)" and nd: "(u, d) \<notin> E"
  shows "(\<exists>w \<in> Q1 \<union> (E `` {u} - S). (w, d) \<in> E\<^sup>+) \<longleftrightarrow> (\<exists>w \<in> insert u Q1. (w, d) \<in> E\<^sup>+)"
proof
  assume "\<exists>w \<in> Q1 \<union> (E `` {u} - S). (w, d) \<in> E\<^sup>+"
  then obtain w where w: "w \<in> Q1 \<union> (E `` {u} - S)" "(w, d) \<in> E\<^sup>+" by blast
  show "\<exists>w \<in> insert u Q1. (w, d) \<in> E\<^sup>+"
  proof (cases "w \<in> Q1")
    case True
    with w show ?thesis by blast
  next
    case False
    with w have "(u, w) \<in> E" by blast
    with w(2) have "(u, d) \<in> E\<^sup>+" by (meson trancl_into_trancl2)
    then show ?thesis by blast
  qed
next
  assume "\<exists>w \<in> insert u Q1. (w, d) \<in> E\<^sup>+"
  then obtain w where w: "w \<in> insert u Q1" "(w, d) \<in> E\<^sup>+" by blast
  show "\<exists>w \<in> Q1 \<union> (E `` {u} - S). (w, d) \<in> E\<^sup>+"
  proof (cases "w \<in> Q1")
    case True
    with w show ?thesis by blast
  next
    case False
    with w have wu: "w = u" by blast
    from w(2) wu obtain v where v: "(u, v) \<in> E" "(v, d) \<in> E\<^sup>*"
      by (meson tranclD)
    with nd have "v \<noteq> d" by blast
    with v(2) have vd: "(v, d) \<in> E\<^sup>+" by (meson rtranclD)
    have "v \<in> S \<union> E `` {u}" using v(1) by blast
    from frontier_inv_path [OF frontier_inv_step [OF inv nd] vd this] show ?thesis .
  qed
qed

section \<open>The effect of the graph operations\<close>

lemma same_shape_refl: "same_shape g g"
  by (simp add: same_shape_def)

lemma same_shape_trans: "same_shape g g1 \<Longrightarrow> same_shape g1 g2 \<Longrightarrow> same_shape g g2"
  by (simp add: same_shape_def)

lemma same_shape_length: "same_shape g g' \<Longrightarrow> length (store g') = length (store g)"
  unfolding same_shape_def by (metis length_map)

lemma same_shape_name:
  "same_shape g g' \<Longrightarrow> p < length (store g) \<Longrightarrow> name (store g' ! p) = name (store g ! p)"
  unfolding same_shape_def by (metis length_map nth_map)

lemma same_shape_adjacent:
  "same_shape g g' \<Longrightarrow> p < length (store g) \<Longrightarrow>
   adjacent_nodes (store g' ! p) = adjacent_nodes (store g ! p)"
  unfolding same_shape_def by (metis length_map nth_map)

lemma same_shape_cleared: 
  assumes "same_shape g g'" 
  shows "cleared g' = cleared g"
proof -
  have len: "length (store g') = length (store g)" using assms by (rule same_shape_length)
  have "map (\<lambda>n. n\<lparr>seen := False\<rparr>) (store g') = map (\<lambda>n. n\<lparr>seen := False\<rparr>) (store g)"
  proof (rule nth_equalityI)
    show "length (map (\<lambda>n. n\<lparr>seen := False\<rparr>) (store g')) = length (map (\<lambda>n. n\<lparr>seen := False\<rparr>) (store g))"
      using len by simp
  next
    fix i assume "i < length (map (\<lambda>n. n\<lparr>seen := False\<rparr>) (store g'))"
    then have i: "i < length (store g)" using len by simp
    from same_shape_name [OF assms i] same_shape_adjacent [OF assms i] i len
    show "map (\<lambda>n. n\<lparr>seen := False\<rparr>) (store g') ! i = map (\<lambda>n. n\<lparr>seen := False\<rparr>) (store g) ! i"
      by simp
  qed
  with assms show ?thesis by (simp add: cleared_def same_shape_def)
qed

lemma cleared_all_unseen: "all_unseen g \<Longrightarrow> cleared g = g"
proof -
  assume a: "all_unseen g"
  have "map (\<lambda>n. n\<lparr>seen := False\<rparr>) (store g) = store g"
    by (rule map_idI) (use a in \<open>simp add: all_unseen_def\<close>)
  then show ?thesis by (simp add: cleared_def)
qed


lemma set_seen_result:
  "p < length (store g) \<Longrightarrow>
   graph_node_set_seen g p s = Inr (g\<lparr>store := (store g)[p := (store g ! p)\<lparr>seen := s\<rparr>]\<rparr>)"
  by (simp add: graph_node_set_seen_def)

lemma map_update_same: "(map f xs)[p := f (xs ! p)] = map f xs"
  by (metis list_update_id map_update)

lemma set_seen_shape:
  "same_shape g (g\<lparr>store := (store g)[p := (store g ! p)\<lparr>seen := s\<rparr>]\<rparr>)"
  by (simp add: same_shape_def map_update map_update_same)

lemma set_seen_seen_set:
  "p < length (store g) \<Longrightarrow>
   seen_set (g\<lparr>store := (store g)[p := (store g ! p)\<lparr>seen := True\<rparr>]\<rparr>) = insert p (seen_set g)"
  by (auto simp: seen_set_def nth_list_update)

lemma nodes_are_equal_result:
  assumes "unique_names g" "n < length (store g)" "d < length (store g)"
  shows "nodes_are_equal g n d = Inr (n = d)"
  using assms
  by (auto simp: nodes_are_equal_def deref_def unique_names_def distinct_conv_nth)

lemma visit_node_result:
  assumes "n < length (store g)"
  shows "\<exists>g' q'. visit_node g n q = Inr (g', q') \<and> same_shape g g' \<and>
           seen_set g' = insert n (seen_set g) \<and> set q' = set q \<union> ({n} - seen_set g)"
proof (cases "seen (store g ! n)")
  case True
  with assms show ?thesis
    by (auto simp: visit_node_def graph_node_is_seen_def deref_def same_shape_refl seen_set_def)
next
  case False
  let ?g' = "g\<lparr>store := (store g)[n := (store g ! n)\<lparr>seen := True\<rparr>]\<rparr>"
  have "visit_node g n q = Inr (?g', q @ [n])"
    using assms False
    by (simp add: visit_node_def graph_node_is_seen_def deref_def set_seen_result queue_enqueue_def)
  moreover have "n \<notin> seen_set g" using False by (simp add: seen_set_def)
  ultimately show ?thesis
    using set_seen_shape [of g n True] set_seen_seen_set [OF assms] by auto
qed

lemma scan_neighbours_result:
  assumes "unique_names g0" "d < length (store g0)"
  shows "same_shape g0 g \<Longrightarrow> \<forall>n \<in> set ns. n < length (store g0) \<Longrightarrow>
         \<exists>b g' q'. scan_neighbours g d q ns = Inr (b, g', q') \<and> same_shape g0 g' \<and>
           (b \<longleftrightarrow> d \<in> set ns) \<and>
           (\<not> b \<longrightarrow> seen_set g' = seen_set g \<union> set ns \<and> set q' = set q \<union> (set ns - seen_set g))"
proof (induction ns arbitrary: g q)
  case Nil
  then show ?case by (intro exI [of _ False] exI [of _ g] exI [of _ q]) simp
next
  case (Cons n ns)
  have len: "length (store g) = length (store g0)" using Cons.prems(1) by (rule same_shape_length)
  have un: "unique_names g" using assms(1) Cons.prems(1) by (simp add: unique_names_def same_shape_def)
  have n: "n < length (store g)" using Cons.prems(2) len by simp
  have eq: "nodes_are_equal g n d = Inr (n = d)"
    using nodes_are_equal_result [OF un n] assms(2) len by simp
  show ?case
  proof (cases "n = d")
    case True
    with eq Cons.prems(1) show ?thesis
      by (intro exI [of _ True] exI [of _ g] exI [of _ q]) simp
  next
    case False
    from visit_node_result [OF n, of q] obtain g1 q1 where
      v: "visit_node g n q = Inr (g1, q1)" "same_shape g g1"
         "seen_set g1 = insert n (seen_set g)" "set q1 = set q \<union> ({n} - seen_set g)"
      by blast
    have sh: "same_shape g0 g1" using Cons.prems(1) v(2) by (rule same_shape_trans)
    from Cons.IH [OF sh, of q1] Cons.prems(2) obtain b g' q' where
      r: "scan_neighbours g1 d q1 ns = Inr (b, g', q')" "same_shape g0 g'" "b \<longleftrightarrow> d \<in> set ns"
         "\<not> b \<longrightarrow> seen_set g' = seen_set g1 \<union> set ns \<and> set q' = set q1 \<union> (set ns - seen_set g1)"
      by auto
    have "scan_neighbours g d q (n # ns) = Inr (b, g', q')"
      using eq False v(1) r(1) by simp
    moreover have "b \<longleftrightarrow> d \<in> set (n # ns)" using r(3) False by auto
    moreover have "\<not> b \<longrightarrow> seen_set g' = seen_set g \<union> set (n # ns) \<and>
                     set q' = set q \<union> (set (n # ns) - seen_set g)"
      using r(4) v(3,4) by auto
    ultimately show ?thesis using r(2) by blast
  qed
qed

lemma reset_seen_loop_result:
  "nodes g = Some a \<Longrightarrow> slots_valid a (length (store g)) js \<Longrightarrow>
   \<exists>g'. reset_seen_loop g js = Inr g' \<and> same_shape g g' \<and>
     (\<forall>j < length (store g).
        seen (store g' ! j) \<longleftrightarrow>
        seen (store g ! j) \<and> (\<forall>i \<in> set js. vals a ! nat (i - low a) \<noteq> Some j))"
proof (induction js arbitrary: g)
  case Nil
  then show ?case by (simp add: same_shape_refl)
next
  case (Cons i js)
  have ok: "slot_ok a i" and rest: "slots_valid a (length (store g)) js"
    using Cons.prems(2) by (simp_all add: slots_valid_def)
  show ?case
  proof (cases "vals a ! nat (i - low a)")
    case None
    then have "reset_seen_loop g (i # js) = reset_seen_loop g js"
      using Cons.prems(1) ok by (simp add: array_1d_has_value_def)
    with Cons.IH [OF Cons.prems(1) rest] None show ?thesis by auto
  next
    case (Some p)
    then have p: "p < length (store g)"
      using Cons.prems(2) by (simp add: slots_valid_def)
    let ?g1 = "g\<lparr>store := (store g)[p := (store g ! p)\<lparr>seen := False\<rparr>]\<rparr>"
    have step: "reset_seen_loop g (i # js) = reset_seen_loop ?g1 js"
      using Cons.prems(1) ok Some p
      by (simp add: array_1d_has_value_def array_1d_inspect_value_def set_seen_result)
    have "nodes ?g1 = Some a" using Cons.prems(1) by simp
    moreover have "slots_valid a (length (store ?g1)) js" using rest by simp
    ultimately obtain g' where
      g': "reset_seen_loop ?g1 js = Inr g'" "same_shape ?g1 g'"
          "\<forall>j < length (store ?g1). seen (store g' ! j) \<longleftrightarrow>
             seen (store ?g1 ! j) \<and> (\<forall>i \<in> set js. vals a ! nat (i - low a) \<noteq> Some j)"
      using Cons.IH [of ?g1] by blast
    have "same_shape g g'"
      using set_seen_shape [of g p False] g'(2) by (rule same_shape_trans)
    moreover have "\<forall>j < length (store g). seen (store g' ! j) \<longleftrightarrow>
        seen (store g ! j) \<and> (\<forall>i \<in> set (i # js). vals a ! nat (i - low a) \<noteq> Some j)"
      using g'(3) Some p by (auto simp: nth_list_update)
    ultimately show ?thesis using step g'(1) by auto
  qed
qed

lemma graph_reset_seen_result:
  assumes "stored g"
  shows "graph_reset_seen g = Inr (cleared g)"
proof -
  from assms obtain a where a: "nodes g = Some a"
    and v: "slots_valid a (length (store g)) [0 .. node_amount g - 1]"
    and c: "\<forall>p \<in> set [0 ..< length (store g)].
              \<exists>i \<in> set [0 .. node_amount g - 1]. vals a ! nat (i - low a) = Some p"
    by (auto simp: stored_def split: option.splits)
  from reset_seen_loop_result [OF a v] obtain g' where
    g': "reset_seen_loop g [0 .. node_amount g - 1] = Inr g'" "same_shape g g'"
        "\<forall>j < length (store g). seen (store g' ! j) \<longleftrightarrow>
           seen (store g ! j) \<and> (\<forall>i \<in> set [0 .. node_amount g - 1]. vals a ! nat (i - low a) \<noteq> Some j)"
    by blast
  have len: "length (store g') = length (store g)" using g'(2) by (rule same_shape_length)
  have "all_unseen g'"
    unfolding all_unseen_def
  proof
    fix n assume "n \<in> set (store g')"
    then obtain j where j: "j < length (store g')" "n = store g' ! j"
      by (auto simp: in_set_conv_nth)
    with c len have "\<exists>i \<in> set [0 .. node_amount g - 1]. vals a ! nat (i - low a) = Some j" by simp
    with g'(3) j len show "\<not> seen n" by auto
  qed
  then have "g' = cleared g'" by (simp add: cleared_all_unseen)
  also have "\<dots> = cleared g" using g'(2) by (rule same_shape_cleared)
  finally show ?thesis using g'(1) by (simp add: graph_reset_seen_def)
qed

lemma same_shape_stored: "same_shape g g' \<Longrightarrow> stored g \<Longrightarrow> stored g'"
  by (frule same_shape_length) (simp add: stored_def same_shape_def split: option.splits)

lemma copy_neighbours_rev: "copy_neighbours ns acc = rev ns @ acc"
  by (induction ns arbitrary: acc) (simp_all add: dlist_insert_def dlist_first_def)

lemma edges_Image:
  "u < length (store g) \<Longrightarrow> edges g `` {u} = set (adjacent_nodes (store g ! u))"
  by (auto simp: edges_def)

section \<open>The search loop\<close>

lemma bfs_loop_result:
  assumes wf: "wf_graph g0" and d: "d < length (store g0)"
  shows "same_shape g0 g \<Longrightarrow> \<forall>p \<in> set q. p < length (store g0) \<Longrightarrow>
     \<exists>b. bfs_loop g d q = Inr (b, cleared g0) \<and>
         (b \<longrightarrow> (\<exists>u < length (store g0). d \<in> set (adjacent_nodes (store g0 ! u)))) \<and>
         (frontier_inv (edges g0) d (seen_set g) (set q) \<longrightarrow>
            (b \<longleftrightarrow> (\<exists>w \<in> set q. (w, d) \<in> (edges g0)\<^sup>+)))"
proof (induction "2 * unseen_count g + length q" arbitrary: g q rule: less_induct)
  case less
  have un: "unique_names g0" and vp: "valid_ptrs g0" and st: "stored g0"
    using wf by (simp_all add: wf_graph_def)
  have len: "length (store g) = length (store g0)" using less.prems(1) by (rule same_shape_length)
  have reset: "graph_reset_seen g' = Inr (cleared g0)" if "same_shape g0 g'" for g'
    using graph_reset_seen_result [OF same_shape_stored [OF that st]] same_shape_cleared [OF that]
    by simp
  show ?case
  proof (cases q)
    case Nil
    have "bfs_loop g d q = Inr (False, cleared g0)"
      using Nil reset [OF less.prems(1)] by (simp add: bfs_loop.simps queue_is_empty_def)
    with Nil show ?thesis by (intro exI [of _ False]) simp
  next
    case (Cons u q1)
    have u: "u < length (store g0)" using less.prems(2) Cons by simp
    let ?adj = "adjacent_nodes (store g0 ! u)"
    have adj: "graph_neighbours g u = Inr ?adj"
      using u len same_shape_adjacent [OF less.prems(1) u]
      by (simp add: graph_neighbours_def deref_def)
    have adj_valid: "\<forall>n \<in> set (rev ?adj). n < length (store g0)"
      using vp u by (auto simp: valid_ptrs_def)
    from scan_neighbours_result [OF un d less.prems(1) adj_valid, of q1]
    obtain b1 g' q' where
      sc: "scan_neighbours g d q1 (rev ?adj) = Inr (b1, g', q')" "same_shape g0 g'"
          "b1 \<longleftrightarrow> d \<in> set (rev ?adj)"
          "\<not> b1 \<longrightarrow> seen_set g' = seen_set g \<union> set (rev ?adj) \<and>
                     set q' = set q1 \<union> (set (rev ?adj) - seen_set g)"
      by blast
    have unfold: "bfs_loop g d q =
        (if b1 then destination_found g' q' else bfs_loop g' d q')"
      using Cons adj sc(1)
      by (simp add: bfs_loop.simps [of g d "u # q1"] queue_is_empty_def queue_front_def
          queue_dequeue_def copy_neighbours_rev dlist_empty_def)
    have E: "edges g0 `` {u} = set ?adj" using u by (rule edges_Image)
    show ?thesis
    proof (cases b1)
      case True
      have "bfs_loop g d q = Inr (True, cleared g0)"
        using unfold True reset [OF sc(2)] by (simp add: destination_found_def)
      moreover have "d \<in> set ?adj" using sc(3) True by simp
      moreover from this have "(u, d) \<in> (edges g0)\<^sup>+" using E by blast
      ultimately show ?thesis using u Cons by auto
    next
      case False
      have nd: "(u, d) \<notin> edges g0" using sc(3) False E by auto
      have S': "seen_set g' = seen_set g \<union> edges g0 `` {u}"
        and Q': "set q' = set q1 \<union> (edges g0 `` {u} - seen_set g)"
        using sc(4) False E by simp_all
      have "2 * unseen_count g' + length q' \<le> 2 * unseen_count g + length q1"
        using sc(1) by (rule scan_neighbours_measure)
      then have less': "2 * unseen_count g' + length q' < 2 * unseen_count g + length q"
        using Cons by simp
      have qv: "\<forall>p \<in> set q'. p < length (store g0)"
        using Q' less.prems(2) Cons adj_valid E by auto
      from less.hyps [OF less' sc(2) qv] obtain b where
        b: "bfs_loop g' d q' = Inr (b, cleared g0)"
           "b \<longrightarrow> (\<exists>u < length (store g0). d \<in> set (adjacent_nodes (store g0 ! u)))"
           "frontier_inv (edges g0) d (seen_set g') (set q') \<longrightarrow>
              (b \<longleftrightarrow> (\<exists>w \<in> set q'. (w, d) \<in> (edges g0)\<^sup>+))"
        by blast
      have "bfs_loop g d q = Inr (b, cleared g0)" using unfold False b(1) by simp
      moreover have "b \<longleftrightarrow> (\<exists>w \<in> set q. (w, d) \<in> (edges g0)\<^sup>+)"
        if inv: "frontier_inv (edges g0) d (seen_set g) (set q)"
      proof -
        from inv Cons have inv0: "frontier_inv (edges g0) d (seen_set g) (insert u (set q1))"
          by simp
        from frontier_inv_step [OF inv0 nd] b(3) S' Q'
        have "b \<longleftrightarrow> (\<exists>w \<in> set q1 \<union> (edges g0 `` {u} - seen_set g). (w, d) \<in> (edges g0)\<^sup>+)"
          by simp
        also have "\<dots> \<longleftrightarrow> (\<exists>w \<in> insert u (set q1). (w, d) \<in> (edges g0)\<^sup>+)"
          using inv0 nd by (rule frontier_step_equiv)
        finally show ?thesis using Cons by simp
      qed
      ultimately show ?thesis using b(2) by blast
    qed
  qed
qed

lemma find_path_result:
  assumes wf: "wf_graph g" and a: "a < length (store g)" and d: "d < length (store g)"
  shows "\<exists>b. find_path g a d = Inr (b, cleared g) \<and>
           (b \<longrightarrow> (\<exists>u < length (store g). d \<in> set (adjacent_nodes (store g ! u)))) \<and>
           (all_unseen g \<longrightarrow> (b \<longleftrightarrow> (a, d) \<in> (edges g)\<^sup>+))"
proof -
  let ?g1 = "g\<lparr>store := (store g)[a := (store g ! a)\<lparr>seen := True\<rparr>]\<rparr>"
  have fp: "find_path g a d = bfs_loop ?g1 d [a]"
    using a by (simp add: find_path_def set_seen_result queue_enqueue_def queue_empty_def)
  have sh: "same_shape g ?g1" by (rule set_seen_shape)
  have qa: "\<forall>p \<in> set [a]. p < length (store g)" using a by simp
  from bfs_loop_result [OF wf d sh qa] obtain b where
    b: "bfs_loop ?g1 d [a] = Inr (b, cleared g)"
       "b \<longrightarrow> (\<exists>u < length (store g). d \<in> set (adjacent_nodes (store g ! u)))"
       "frontier_inv (edges g) d (seen_set ?g1) (set [a]) \<longrightarrow>
          (b \<longleftrightarrow> (\<exists>w \<in> set [a]. (w, d) \<in> (edges g)\<^sup>+))"
    by blast
  have "b \<longleftrightarrow> (a, d) \<in> (edges g)\<^sup>+" if "all_unseen g"
  proof -
    have "seen_set g = {}" using that by (auto simp: seen_set_def all_unseen_def)
    then have "seen_set ?g1 = {a}" using set_seen_seen_set [OF a] by simp
    then have "frontier_inv (edges g) d (seen_set ?g1) (set [a])"
      by (simp add: frontier_inv_def)
    with b(3) show ?thesis by simp
  qed
  with fp b(1,2) show ?thesis by auto
qed

lemma abc_graph_wf: "wf_graph abc_graph"
  by code_simp

lemma abc_graph_unseen: "all_unseen abc_graph"
  by code_simp

lemma graph_insert_edge_result:
  assumes "n1 < length (store g)"
  shows "\<exists>g'. graph_insert_edge g n1 n2 = Inr g' \<and> length (store g') = length (store g) \<and>
           (\<forall>n < length (store g). adjacent_nodes (store g' ! n) =
              (if n = n1 then n2 # adjacent_nodes (store g ! n) else adjacent_nodes (store g ! n)))"
  using assms
  by (simp add: graph_insert_edge_def deref_def dlist_insert_def dlist_first_def nth_list_update)

lemma insert_edges_result:
  "\<forall>e \<in> set es. fst e < length (store g) \<Longrightarrow>
   \<exists>g'. insert_edges g es = Inr g' \<and> length (store g') = length (store g) \<and>
     (\<forall>n < length (store g). adjacent_nodes (store g' ! n) =
        rev (map snd (filter (\<lambda>e. fst e = n) es)) @ adjacent_nodes (store g ! n))"
proof (induction es arbitrary: g)
  case Nil
  then show ?case by simp
next
  case (Cons e es)
  obtain n1 n2 where e: "e = (n1, n2)" by (cases e)
  have n1: "n1 < length (store g)" using Cons.prems e by simp
  from graph_insert_edge_result [OF n1, of n2] obtain g1 where
    g1: "graph_insert_edge g n1 n2 = Inr g1" "length (store g1) = length (store g)"
        "\<forall>n < length (store g). adjacent_nodes (store g1 ! n) =
           (if n = n1 then n2 # adjacent_nodes (store g ! n) else adjacent_nodes (store g ! n))"
    by blast
  have "\<forall>e \<in> set es. fst e < length (store g1)" using Cons.prems g1(2) by simp
  from Cons.IH [OF this] obtain g' where
    g': "insert_edges g1 es = Inr g'" "length (store g') = length (store g1)"
        "\<forall>n < length (store g1). adjacent_nodes (store g' ! n) =
           rev (map snd (filter (\<lambda>e. fst e = n) es)) @ adjacent_nodes (store g1 ! n)"
    by blast
  have "insert_edges g (e # es) = Inr g'" using e g1(1) g'(1) by simp
  moreover have "length (store g') = length (store g)" using g'(2) g1(2) by simp
  moreover have "\<forall>n < length (store g). adjacent_nodes (store g' ! n) =
        rev (map snd (filter (\<lambda>e. fst e = n) (e # es))) @ adjacent_nodes (store g ! n)"
    using g'(3) g1(2,3) e by auto
  ultimately show ?case by blast
qed

lemma abc_find_path_AC: "find_path abc_graph 0 2 = Inr (True, abc_graph)"
  by code_simp

lemma abc_find_path_CA: "find_path abc_graph 2 0 = Inr (False, abc_graph)"
  by code_simp

lemma abc_find_path_AA: "find_path abc_graph 0 0 = Inr (False, abc_graph)"
  by code_simp

lemma abc_graph_length: "length (store abc_graph) = 3"
  by (simp add: abc_graph_def)

lemma visit_node_enqueue:
  assumes "visit_node g n q0 = Inr (g1, q1)"
  shows "seen_set g1 = insert n (seen_set g) \<and>
         (if n \<in> seen_set g then q1 = q0 else q1 = queue_enqueue q0 n)"
proof -
  have n: "n < length (store g)"
    using assms
    by (auto simp: visit_node_def graph_node_is_seen_def deref_def split: if_splits)
  show ?thesis
  proof (cases "seen (store g ! n)")
    case True
    with n assms show ?thesis
      by (auto simp: visit_node_def graph_node_is_seen_def deref_def seen_set_def)
  next
    case False
    then have "n \<notin> seen_set g" by (simp add: seen_set_def)
    moreover from False n assms
    have "g1 = g\<lparr>store := (store g)[n := (store g ! n)\<lparr>seen := True\<rparr>]\<rparr>" "q1 = queue_enqueue q0 n"
      by (auto simp: visit_node_def graph_node_is_seen_def deref_def set_seen_result)
    ultimately show ?thesis using set_seen_seen_set [OF n] by simp
  qed
qed

lemma outer_iteration_decreases:
  assumes "\<not> queue_is_empty q"
    and "scan_neighbours g d (queue_dequeue q) ns = Inr (b, g', q')"
  shows "2 * unseen_count g' + length q' < 2 * unseen_count g + length q"
  using scan_neighbours_measure [OF assms(2)] assms(1)
  by (cases q) (simp_all add: queue_is_empty_def queue_dequeue_def)

section \<open>Choosing a node\<close>

lemma choose_loop_skip:
  "\<forall>j \<in> set pre. slot_ok a j \<and> vals a ! nat (j - low a) = None \<Longrightarrow>
   choose_loop (Some a) (pre @ js) = choose_loop (Some a) js"
  by (induction pre) (simp_all add: array_1d_has_value_def)

lemma choose_loop_hit:
  "slot_ok a i \<Longrightarrow> vals a ! nat (i - low a) = Some p \<Longrightarrow>
   choose_loop (Some a) (i # js) = Inr (Some p)"
  by (simp add: array_1d_has_value_def array_1d_inspect_value_def)

section \<open>The loader\<close>

lemma abc_prepare: "prepare_graph list_insert (Some abc_file) [] = Inr abc_graph"
  by code_simp

lemma bca_prepare: "prepare_graph list_insert_before (Some abc_file) [] = Inr bca_graph"
  by code_simp

lemma bca_names: "map name (store bca_graph) = [''B'', ''C'', ''A'']"
  by (simp add: bca_graph_def)

lemma bca_show_AC:
  "find_and_show_path bca_graph ''A'' ''C'' = Inr (''There is a path from A to C.\<newline>\<newline>'', bca_graph)"
  by code_simp

lemma bca_show_CA:
  "find_and_show_path bca_graph ''C'' ''A'' = Inr (''There is no path from C to A.\<newline>\<newline>'', bca_graph)"
  by code_simp

lemma bca_find_path_AC: "find_path bca_graph 2 1 = Inr (True, bca_graph)"
  by code_simp

lemma bca_find_path_CA: "find_path bca_graph 1 2 = Inr (False, bca_graph)"
  by code_simp

lemma abc_names: "map name (store abc_graph) = [''A'', ''B'', ''C'']"
  by (simp add: abc_graph_def)

lemma abc_show_AC:
  "find_and_show_path abc_graph ''A'' ''C'' = Inr (''There is a path from A to C.\<newline>\<newline>'', abc_graph)"
  by code_simp

lemma abc_show_CA:
  "find_and_show_path abc_graph ''C'' ''A'' = Inr (''There is no path from C to A.\<newline>\<newline>'', abc_graph)"
  by code_simp

lemma abc_find_A: "graph_find_node abc_graph ''A'' = Inr (Some 0)"
  by code_simp

lemma abc_find_C: "graph_find_node abc_graph ''C'' = Inr (Some 2)"
  by code_simp

lemma count_alnum_None: "count_alnum s k = None \<longleftrightarrow> \<not> list_all isalnum s"
  by (induction s arbitrary: k) simp_all

lemma count_alnum_Some: "count_alnum s k = Some n \<Longrightarrow> list_all isalnum s"
  using count_alnum_None [of s k] by simp

lemma bad_names_rejected:
  assumes "names_not_alnum line" and "sscanf_two line = Inr (sb, db)"
  shows "validate_node_names sb db \<noteq> Inr True"
proof -
  obtain t1 r1 where t1: "scan_token line = (t1, r1)" by (cases "scan_token line")
  obtain t2 r2 where t2: "scan_token r1 = (t2, r2)" by (cases "scan_token r1")
  from assms(1) t1 t2 have bad: "\<not> list_all isalnum t1 \<or> \<not> list_all isalnum t2"
    by (simp add: names_not_alnum_def)
  show ?thesis
  proof (cases "t1 = []")
    case True
    with assms(2) t1 show ?thesis by (simp add: sscanf_two_def validate_node_names_def)
  next
    case False
    note ne1 = this
    show ?thesis
    proof (cases "t2 = []")
      case True
      with assms(2) t1 t2 ne1 show ?thesis
        by (auto simp: sscanf_two_def validate_node_names_def split: if_splits option.splits)
    next
      case False
      with assms(2) t1 t2 ne1 have "sb = Some t1" "db = Some t2"
        by (auto simp: sscanf_two_def split: if_splits)
      with bad show ?thesis
        by (auto simp: validate_node_names_def split: option.splits dest: count_alnum_Some)
    qed
  qed
qed

lemma add_edges_loop_bad_line:
  "\<exists>line \<in> set (file_lines fp). is_edge_line line \<and> names_not_alnum line \<Longrightarrow>
   \<exists>e. add_edges_loop ins fp l p = Inl e"
proof (induction "length fp" arbitrary: fp l p rule: less_induct)
  case less
  show ?case
  proof (cases "fgets MAX_INPUT_LENGTH fp")
    case None
    with less.prems show ?thesis by (simp add: file_lines.simps [of fp])
  next
    case (Some x)
    obtain line fp' where x: "x = (line, fp')" by (cases x)
    have shorter: "length fp' < length fp" using fgets_shorter [OF Some] x by simp
    have lines: "file_lines fp = line # file_lines fp'"
      using Some x by (simp add: file_lines.simps [of fp])
    have rec: "\<exists>e. add_edges_loop ins fp' l' p' = Inl e"
      if "\<exists>ln \<in> set (file_lines fp'). is_edge_line ln \<and> names_not_alnum ln" for l' p'
      using less.hyps [OF shorter that] .
    show ?thesis
    proof (cases "is_edge_line line \<and> names_not_alnum line")
      case True
      then obtain c cs where c: "line = c # cs" "c \<noteq> CHR ''#''" "c \<noteq> CHR ''\<newline>''"
        by (auto simp: is_edge_line_def split: list.splits)
      show ?thesis
      proof (cases "sscanf_two line")
        case (Inl e)
        with Some x c show ?thesis by (simp add: add_edges_loop.simps [of ins fp])
      next
        case (Inr bufs)
        obtain sb db where bufs: "bufs = (sb, db)" by (cases bufs)
        from bad_names_rejected [of line sb db] True Inr bufs
        have "validate_node_names sb db \<noteq> Inr True" by simp
        with Some x c Inr bufs show ?thesis
          by (simp add: add_edges_loop.simps [of ins fp] split: sum.splits bool.splits)
      qed
    next
      case False
      with less.prems lines
      have later: "\<exists>ln \<in> set (file_lines fp'). is_edge_line ln \<and> names_not_alnum ln" by auto
      show ?thesis
        using Some x rec [OF later]
        by (auto simp: add_edges_loop.simps [of ins fp] split: list.splits sum.splits bool.splits
            option.splits prod.splits)
    qed
  qed
qed

lemma bad_name_file_lines:
  "file_lines (snd (snd (read_edge_count bad_name_file))) = [''A B\<newline>'', ''a-b C\<newline>'']"
  by code_simp

lemma bad_name_file_bad: "is_edge_line ''a-b C\<newline>'' \<and> names_not_alnum ''a-b C\<newline>''"
  by code_simp

lemma bad_name_file_exit:
  "prepare_graph list_insert (Some bad_name_file) [] = Inl Exit_failure"
  by code_simp

lemma graph_insert_node_capacity:
  "graph_insert_node g s = Inr g' \<Longrightarrow>
   graph_capacity g' = graph_capacity g \<and> graph_slots g' = graph_slots g"
  by (auto simp: graph_insert_node_def array_1d_set_value_def graph_capacity_def graph_slots_def
      Let_def split: option.splits if_splits sum.splits)

lemma graph_insert_edge_capacity:
  "graph_insert_edge g n1 n2 = Inr g' \<Longrightarrow>
   graph_capacity g' = graph_capacity g \<and> graph_slots g' = graph_slots g"
  by (auto simp: graph_insert_edge_def graph_capacity_def graph_slots_def Let_def
      split: sum.splits)

lemma find_or_insert_capacity:
  "find_or_insert g s = Inr (g', p) \<Longrightarrow>
   graph_capacity g' = graph_capacity g \<and> graph_slots g' = graph_slots g"
  by (auto simp: find_or_insert_def split: sum.splits option.splits
      dest: graph_insert_node_capacity)

lemma create_graph_capacity:
  "create_graph g es = Inr g' \<Longrightarrow>
   graph_capacity g' = graph_capacity g \<and> graph_slots g' = graph_slots g"
proof (induction es arbitrary: g)
  case Nil
  then show ?case by simp
next
  case (Cons e es)
  from Cons.prems obtain g1 p1 g2 p2 n1 n2 g3 where
    s: "find_or_insert g (src e) = Inr (g1, p1)" "find_or_insert g1 (dest e) = Inr (g2, p2)"
       "graph_insert_edge g2 n1 n2 = Inr g3" "create_graph g3 es = Inr g'"
    by (auto split: sum.splits option.splits prod.splits)
  from find_or_insert_capacity [OF s(1)] find_or_insert_capacity [OF s(2)]
    graph_insert_edge_capacity [OF s(3)] Cons.IH [OF s(4)]
  show ?case by simp
qed

lemma one_edge_count: "read_edge_count one_edge_file = (True, 1, ''A B\<newline>'')"
  by code_simp

lemma one_edge_list:
  "add_edges_to_list list_insert ''A B\<newline>'' [] = Inr [\<lparr>src = ''A'', dest = ''B''\<rparr>]"
  by code_simp

lemma one_edge_prepare:
  "prepare_graph list_insert (Some one_edge_file) [] = Inr one_edge_graph"
  by code_simp

section \<open>The graphs of the program are well-formed\<close>

text \<open>
  \<open>graph_empty\<close> gives a well-formed graph with clear flags, \<open>graph_insert_node\<close> with a
  new name and \<open>graph_insert_edge\<close> between stored nodes keep it so, and therefore so
  is every graph that \<open>prepare_graph\<close> returns.
\<close>

lemma graph_empty_wf: "wf_graph (graph_empty n) \<and> all_unseen (graph_empty n)"
  by (simp add: wf_graph_def valid_ptrs_def unique_names_def stored_def slots_valid_def
      all_unseen_def graph_empty_def)

lemma find_node_loop_None:
  "find_node_loop g s js = Inr None \<Longrightarrow> nodes g = Some a \<Longrightarrow>
   \<forall>i \<in> set js. \<forall>p. vals a ! nat (i - low a) = Some p \<longrightarrow> name (store g ! p) \<noteq> s"
proof (induction js)
  case Nil
  then show ?case by simp
next
  case (Cons i js)
  then show ?case
    by (auto simp: array_1d_inspect_value_def deref_def
        split: sum.splits option.splits if_splits)
qed

lemma find_node_loop_Some:
  "find_node_loop g s js = Inr (Some p) \<Longrightarrow> p < length (store g)"
proof (induction js)
  case Nil
  then show ?case by simp
next
  case (Cons i js)
  then show ?case
    by (auto simp: deref_def split: sum.splits option.splits if_splits)
qed

lemma graph_find_node_None:
  assumes "stored g" and "graph_find_node g s = Inr None"
  shows "s \<notin> set (map name (store g))"
proof
  assume "s \<in> set (map name (store g))"
  then obtain p where p: "p < length (store g)" "name (store g ! p) = s"
    by (auto simp: in_set_conv_nth)
  from assms(1) obtain a where a: "nodes g = Some a"
    and c: "\<forall>p \<in> set [0 ..< length (store g)].
              \<exists>i \<in> set [0 .. node_amount g - 1]. vals a ! nat (i - low a) = Some p"
    by (auto simp: stored_def split: option.splits)
  from p(1) have "p \<in> set [0 ..< length (store g)]" by simp
  with c obtain i where i: "i \<in> set [0 .. node_amount g - 1]" "vals a ! nat (i - low a) = Some p"
    by blast
  from find_node_loop_None [OF assms(2) [unfolded graph_find_node_def] a] i p(2)
  show False by blast
qed

lemma graph_insert_node_wf:
  assumes wf: "wf_graph g" and un: "all_unseen g" and fresh: "s \<notin> set (map name (store g))"
    and ins: "graph_insert_node g s = Inr g'"
  shows "wf_graph g' \<and> all_unseen g' \<and> length (store g') = Suc (length (store g))"
proof -
  from wf obtain a where a: "nodes g = Some a" and nn: "0 \<le> node_amount g"
    and sv: "slots_valid a (length (store g)) [0 .. node_amount g - 1]"
    and cv: "\<forall>p \<in> set [0 ..< length (store g)].
              \<exists>i \<in> set [0 .. node_amount g - 1]. vals a ! nat (i - low a) = Some p"
    by (auto simp: wf_graph_def stored_def split: option.splits)
  let ?k = "nat (node_amount g - low a)"
  let ?a' = "a\<lparr>vals := (vals a)[?k := Some (length (store g))]\<rparr>"
  from ins a have ok: "slot_ok a (node_amount g)"
    and g': "g' = \<lparr>nodes = Some ?a', node_amount = node_amount g + 1,
                   store = store g @ [\<lparr>name = s, seen = False, adjacent_nodes = []\<rparr>]\<rparr>"
    by (auto simp: graph_insert_node_def array_1d_set_value_def dlist_empty_def Let_def
        split: if_splits)
  have old: "vals ?a' ! nat (i - low a) = vals a ! nat (i - low a)"
    if "i \<in> set [0 .. node_amount g - 1]" for i
  proof -
    from that sv have "slot_ok a i" by (simp add: slots_valid_def)
    then have "nat (i - low a) \<noteq> ?k" using that ok by (auto simp: slot_ok_def)
    then show ?thesis by simp
  qed
  have new: "vals ?a' ! nat (node_amount g - low a) = Some (length (store g))"
    using ok by (simp add: slot_ok_def)
  have "valid_ptrs g'"
    using wf g' by (auto simp: wf_graph_def valid_ptrs_def less_Suc_eq)
  moreover have "unique_names g'"
    using wf fresh g' by (simp add: wf_graph_def unique_names_def)
  moreover have "slots_valid ?a' (Suc (length (store g))) [0 .. node_amount g]"
    unfolding slots_valid_def
  proof
    fix i assume i: "i \<in> set [0 .. node_amount g]"
    show "slot_ok ?a' i \<and> (case vals ?a' ! nat (i - low ?a') of None \<Rightarrow> True
                              | Some p \<Rightarrow> p < Suc (length (store g)))"
    proof (cases "i = node_amount g")
      case True
      with ok new show ?thesis by (simp add: slot_ok_def)
    next
      case False
      with i have i': "i \<in> set [0 .. node_amount g - 1]" by simp
      with sv have "slot_ok a i"
        "case vals a ! nat (i - low a) of None \<Rightarrow> True | Some p \<Rightarrow> p < length (store g)"
        by (simp_all add: slots_valid_def)
      with old [OF i'] show ?thesis by (auto simp: slot_ok_def split: option.splits)
    qed
  qed
  moreover have "\<forall>p \<in> set [0 ..< Suc (length (store g))].
      \<exists>i \<in> set [0 .. node_amount g]. vals ?a' ! nat (i - low ?a') = Some p"
  proof
    fix p assume "p \<in> set [0 ..< Suc (length (store g))]"
    then consider "p = length (store g)" | "p \<in> set [0 ..< length (store g)]" by force
    then show "\<exists>i \<in> set [0 .. node_amount g]. vals ?a' ! nat (i - low ?a') = Some p"
    proof cases
      case 1
      with new nn show ?thesis by (intro bexI [of _ "node_amount g"]) simp_all
    next
      case 2
      with cv obtain i where i: "i \<in> set [0 .. node_amount g - 1]" "vals a ! nat (i - low a) = Some p"
        by blast
      with old [OF i(1)] show ?thesis by (intro bexI [of _ i]) simp_all
    qed
  qed
  ultimately have "wf_graph g'"
    using g' nn by (simp add: wf_graph_def stored_def)
  moreover have "all_unseen g'" using un g' by (simp add: all_unseen_def)
  ultimately show ?thesis using g' by simp
qed

lemma graph_insert_edge_wf:
  assumes wf: "wf_graph g" and n1: "n1 < length (store g)" and n2: "n2 < length (store g)"
    and ins: "graph_insert_edge g n1 n2 = Inr g'"
  shows "wf_graph g' \<and> (all_unseen g \<longrightarrow> all_unseen g') \<and> length (store g') = length (store g)"
proof -
  let ?x = "(store g ! n1)\<lparr>adjacent_nodes := n2 # adjacent_nodes (store g ! n1)\<rparr>"
  from ins n1 have g': "g' = g\<lparr>store := (store g)[n1 := ?x]\<rparr>"
    by (simp add: graph_insert_edge_def deref_def dlist_insert_def dlist_first_def)
  have mem: "n \<in> set (store g) \<or> n = ?x" if "n \<in> set (store g')" for n
    using that g' set_update_subset_insert [of "store g" n1 ?x] by auto
  have x: "store g ! n1 \<in> set (store g)" using n1 by simp
  have "valid_ptrs g'"
    unfolding valid_ptrs_def
  proof (intro ballI)
    fix n p assume "n \<in> set (store g')" "p \<in> set (adjacent_nodes n)"
    with mem [of n] wf n2 x have "p < length (store g)"
      by (auto simp: wf_graph_def valid_ptrs_def)
    then show "p < length (store g')" using g' by simp
  qed
  moreover have "unique_names g'"
    using wf g' by (simp add: wf_graph_def unique_names_def map_update map_update_same)
  moreover have "stored g'"
    using wf g' by (simp add: wf_graph_def stored_def split: option.splits)
  moreover have "all_unseen g'" if "all_unseen g"
    unfolding all_unseen_def
  proof
    fix n assume "n \<in> set (store g')"
    with mem [of n] that x show "\<not> seen n" by (auto simp: all_unseen_def)
  qed
  ultimately show ?thesis using g' by (simp add: wf_graph_def)
qed

lemma find_or_insert_wf:
  assumes "wf_graph g" and "all_unseen g" and "find_or_insert g s = Inr (g', po)"
  shows "wf_graph g' \<and> all_unseen g' \<and> length (store g) \<le> length (store g') \<and>
         (\<forall>p. po = Some p \<longrightarrow> p < length (store g'))"
proof (cases "graph_find_node g s")
  case (Inl e)
  with assms(3) show ?thesis by (simp add: find_or_insert_def)
next
  case (Inr r)
  show ?thesis
  proof (cases r)
    case (Some n)
    with Inr assms(3) have "g' = g" "po = Some n" by (simp_all add: find_or_insert_def)
    moreover have "n < length (store g)"
      using Inr Some find_node_loop_Some by (simp add: graph_find_node_def)
    ultimately show ?thesis using assms(1,2) by simp
  next
    case None
    with Inr assms(1) have fresh: "s \<notin> set (map name (store g))"
      using graph_find_node_None by (simp add: wf_graph_def)
    from None Inr assms(3) obtain g1 where
      g1: "graph_insert_node g s = Inr g1" "graph_find_node g1 s = Inr po" "g' = g1"
      by (auto simp: find_or_insert_def split: sum.splits)
    from graph_insert_node_wf [OF assms(1,2) fresh g1(1)] g1(2,3) show ?thesis
      using find_node_loop_Some [of g1 s _ _] by (auto simp: graph_find_node_def)
  qed
qed

lemma create_graph_wf:
  "wf_graph g \<Longrightarrow> all_unseen g \<Longrightarrow> create_graph g es = Inr g' \<Longrightarrow>
   wf_graph g' \<and> all_unseen g'"
proof (induction es arbitrary: g)
  case Nil
  then show ?case by simp
next
  case (Cons e es)
  from Cons.prems(3) obtain g1 g2 n1 n2 g3 where
    s: "find_or_insert g (src e) = Inr (g1, Some n1)"
       "find_or_insert g1 (dest e) = Inr (g2, Some n2)"
       "graph_insert_edge g2 n1 n2 = Inr g3" "create_graph g3 es = Inr g'"
    by (auto split: sum.splits option.splits prod.splits)
  from find_or_insert_wf [OF Cons.prems(1,2) s(1)]
  have 1: "wf_graph g1" "all_unseen g1" "n1 < length (store g1)" by simp_all
  from find_or_insert_wf [OF 1(1,2) s(2)]
  have 2: "wf_graph g2" "all_unseen g2" "length (store g1) \<le> length (store g2)"
    "n2 < length (store g2)" by simp_all
  from 1(3) 2(3) have "n1 < length (store g2)" by simp
  from graph_insert_edge_wf [OF 2(1) this 2(4) s(3)] 2(2)
  have "wf_graph g3" "all_unseen g3" by simp_all
  then show ?case using s(4) by (rule Cons.IH)
qed

lemma prepare_graph_wf:
  "prepare_graph ins file l = Inr g \<Longrightarrow> wf_graph g \<and> all_unseen g"
  using create_graph_wf graph_empty_wf
  by (auto simp: prepare_graph_def split: sum.splits prod.splits)

section \<open>A query on a graph with a flag set\<close>







section \<open>Claims\<close>

text \<open>
  C1: on a well-formed graph whose flags are all clear, \<open>find_path\<close> for two different
  stored nodes returns true exactly when a directed walk leads from the first to the
  second in the recorded edges, and it returns the graph as it was.
\<close>

theorem find_path_sound_complete:
  assumes "wf_graph g" and "all_unseen g"
    and "a < length (store g)" and "b < length (store g)" and "a \<noteq> b"
  shows "find_path g a b = Inr ((a, b) \<in> (edges g)\<^sup>*, g)"
proof -
  from find_path_result [OF assms(1,3,4)] assms(2) obtain r where
    r: "find_path g a b = Inr (r, cleared g)" "r \<longleftrightarrow> (a, b) \<in> (edges g)\<^sup>+"
    by blast
  have "(a, b) \<in> (edges g)\<^sup>* \<longleftrightarrow> (a, b) \<in> (edges g)\<^sup>+"
    using assms(5) by (simp add: rtrancl_eq_or_trancl)
  with r cleared_all_unseen [OF assms(2)] show ?thesis by simp
qed

text \<open>
  Witness for C1 on the graph A \<rightarrow> B \<rightarrow> C: the search from A finds C, so the walk exists;
  the search from C does not find A, so there is none.
\<close>

theorem find_path_sound_complete_witness:
  "wf_graph abc_graph \<and> all_unseen abc_graph \<and> (0, 2) \<in> (edges abc_graph)\<^sup>* \<and>
   (2, 0) \<notin> (edges abc_graph)\<^sup>*"
proof -
  have "find_path abc_graph 0 2 = Inr ((0, 2) \<in> (edges abc_graph)\<^sup>*, abc_graph)"
    by (rule find_path_sound_complete) (simp_all add: abc_graph_wf abc_graph_unseen abc_graph_length)
  moreover have "find_path abc_graph 2 0 = Inr ((2, 0) \<in> (edges abc_graph)\<^sup>*, abc_graph)"
    by (rule find_path_sound_complete) (simp_all add: abc_graph_wf abc_graph_unseen abc_graph_length)
  ultimately show ?thesis
    using abc_find_path_AC abc_find_path_CA abc_graph_wf abc_graph_unseen by simp
qed




text \<open>
  C3: \<open>graph_is_empty\<close> on a graph that \<open>graph_empty\<close> has just created, with no node
  in it, returns false: it tests the array pointer, which is never null, and not the
  node count.
\<close>

theorem graph_is_empty_fresh_graph:
  "graph_is_empty (graph_empty 4) = False \<and> node_amount (graph_empty 4) = 0 \<and>
   store (graph_empty 4) = []"
  by (simp add: graph_is_empty_def graph_empty_def)

text \<open>
  C4, as the code has it: when the loop of \<open>get_number_of_edges\<close> finds the count \<open>E > 0\<close>
  (and \<open>4 * E\<close> is an \<open>int\<close>), \<open>get_number_of_edges\<close> doubles it and \<open>info_from_file\<close>
  doubles it again, so the graph is created by \<open>graph_empty (4 * E)\<close>: an array with
  the indices \<open>0 .. 4 * E\<close>, which building the graph does not resize.
\<close>

theorem capacity_four_times:
  assumes "read_edge_count fp = (True, E, fp')" and "0 < E" and "4 * E \<le> INT_MAX"
    and "add_edges_to_list ins fp' l = Inr l'"
  shows "info_from_file ins (Some fp) l = Inr (4 * E, l') \<and>
         prepare_graph ins (Some fp) l = create_graph (graph_empty (4 * E)) l' \<and>
         graph_capacity (graph_empty (4 * E)) = Some (4 * E) \<and>
         graph_slots (graph_empty (4 * E)) = Some (nat (4 * E + 1)) \<and>
         (\<forall>g. prepare_graph ins (Some fp) l = Inr g \<longrightarrow>
            graph_capacity g = Some (4 * E) \<and> graph_slots g = Some (nat (4 * E + 1)))"
proof -
  have n: "get_number_of_edges fp = Inr (2 * E, fp')"
    using assms(1-3) by (simp add: get_number_of_edges_def int_times_def INT_MAX_def)
  have i: "info_from_file ins (Some fp) l = Inr (4 * E, l')"
    using n assms(2-4) by (simp add: info_from_file_def int_times_def INT_MAX_def)
  then have p: "prepare_graph ins (Some fp) l = create_graph (graph_empty (4 * E)) l'"
    by (simp add: prepare_graph_def)
  have c: "graph_capacity (graph_empty (4 * E)) = Some (4 * E)"
    "graph_slots (graph_empty (4 * E)) = Some (nat (4 * E + 1))"
    by (simp_all add: graph_capacity_def graph_slots_def graph_empty_def array_1d_create_def)
  have "graph_capacity g = Some (4 * E) \<and> graph_slots g = Some (nat (4 * E + 1))"
    if "prepare_graph ins (Some fp) l = Inr g" for g
    using create_graph_capacity [of "graph_empty (4 * E)" l' g] that p c by simp
  with i p c show ?thesis by blast
qed

text \<open>
  Witness for C4 on a file that declares one edge: the graph is created for 4 nodes.
\<close>

theorem capacity_four_times_witness:
  "info_from_file list_insert (Some one_edge_file) [] = Inr (4, [\<lparr>src = ''A'', dest = ''B''\<rparr>]) \<and>
   graph_capacity one_edge_graph = Some 4 \<and> graph_slots one_edge_graph = Some 5"
proof -
  have "(0::int) < 1" "4 * (1::int) \<le> INT_MAX" by (simp_all add: INT_MAX_def)
  from capacity_four_times [OF one_edge_count this one_edge_list] one_edge_prepare
  show ?thesis by simp
qed

text \<open>
  C4 with twice the count fails: for the file with the count 1 and the edge A B the
  graph is created with \<open>max_nodes = 4\<close> (5 slots), not 2.
\<close>

theorem capacity_counterexample:
  "one_edge_file = ''1\<newline>A B\<newline>'' \<and>
   read_edge_count one_edge_file = (True, 1, ''A B\<newline>'') \<and>
   prepare_graph list_insert (Some one_edge_file) [] = Inr one_edge_graph \<and>
   graph_capacity one_edge_graph = Some 4 \<and>
   graph_slots one_edge_graph = Some 5 \<and>
   graph_capacity one_edge_graph \<noteq> Some (2 * 1)"
  using one_edge_count one_edge_prepare
  by (simp add: one_edge_file_def graph_capacity_def graph_slots_def one_edge_graph_def)

text \<open>
  C5: from the file with the count 2 and the lines A B and B C the loader builds a
  graph with the three nodes A, B and C; \<open>find_path\<close> from A to C returns true and from
  C to A returns false. This holds with the edge records in the order of the file
  and in the reverse order.
\<close>

theorem loader_round_trip:
  "abc_file = ''2\<newline>A B\<newline>B C\<newline>'' \<and>
   prepare_graph list_insert (Some abc_file) [] = Inr abc_graph \<and>
   node_amount abc_graph = 3 \<and>
   set (map name (store abc_graph)) = {''A'', ''B'', ''C''} \<and>
   distinct (map name (store abc_graph)) \<and>
   graph_find_node abc_graph ''A'' = Inr (Some 0) \<and>
   graph_find_node abc_graph ''C'' = Inr (Some 2) \<and>
   find_path abc_graph 0 2 = Inr (True, abc_graph) \<and>
   find_path abc_graph 2 0 = Inr (False, abc_graph) \<and>
   find_and_show_path abc_graph ''A'' ''C'' = Inr (''There is a path from A to C.\<newline>\<newline>'', abc_graph) \<and>
   find_and_show_path abc_graph ''C'' ''A'' = Inr (''There is no path from C to A.\<newline>\<newline>'', abc_graph) \<and>
   prepare_graph list_insert_before (Some abc_file) [] = Inr bca_graph \<and>
   node_amount bca_graph = 3 \<and>
   set (map name (store bca_graph)) = {''A'', ''B'', ''C''} \<and>
   distinct (map name (store bca_graph)) \<and>
   find_path bca_graph 2 1 = Inr (True, bca_graph) \<and>
   find_path bca_graph 1 2 = Inr (False, bca_graph) \<and>
   find_and_show_path bca_graph ''A'' ''C'' = Inr (''There is a path from A to C.\<newline>\<newline>'', bca_graph) \<and>
   find_and_show_path bca_graph ''C'' ''A'' = Inr (''There is no path from C to A.\<newline>\<newline>'', bca_graph)"
proof -
  have "node_amount abc_graph = 3" "node_amount bca_graph = 3"
    by (simp_all add: abc_graph_def bca_graph_def)
  moreover have "set (map name (store abc_graph)) = {''A'', ''B'', ''C''}"
    "set (map name (store bca_graph)) = {''A'', ''B'', ''C''}"
    by (auto simp: abc_names bca_names)
  moreover have "distinct (map name (store abc_graph))" "distinct (map name (store bca_graph))"
    by (simp_all add: abc_names bca_names)
  ultimately show ?thesis
    using abc_prepare abc_find_A abc_find_C abc_find_path_AC abc_find_path_CA abc_show_AC
      abc_show_CA bca_prepare bca_find_path_AC bca_find_path_CA bca_show_AC bca_show_CA
    by (simp add: abc_file_def)
qed

text \<open>
  C6: \<open>graph_insert_edge\<close> puts the destination at the front of the source's
  adjacency list, so after any sequence of insertions \<open>graph_neighbours\<close> lists the
  destinations inserted for a node most recent first, before the ones it had.
\<close>

theorem insert_edge_prepends:
  "(n1 < length (store g) \<longrightarrow>
      (\<exists>g'. graph_insert_edge g n1 n2 = Inr g' \<and>
         graph_neighbours g' n1 = Inr (n2 # adjacent_nodes (store g ! n1)))) \<and>
   ((\<forall>e \<in> set es. fst e < length (store g)) \<longrightarrow>
      (\<exists>g'. insert_edges g es = Inr g' \<and>
         (\<forall>n < length (store g). graph_neighbours g' n =
            Inr (rev (map snd (filter (\<lambda>e. fst e = n) es)) @ adjacent_nodes (store g ! n)))))"
proof (intro conjI impI)
  assume n1: "n1 < length (store g)"
  from graph_insert_edge_result [OF n1, of n2] n1
  show "\<exists>g'. graph_insert_edge g n1 n2 = Inr g' \<and>
         graph_neighbours g' n1 = Inr (n2 # adjacent_nodes (store g ! n1))"
    by (auto simp: graph_neighbours_def deref_def)
next
  assume "\<forall>e \<in> set es. fst e < length (store g)"
  from insert_edges_result [OF this]
  show "\<exists>g'. insert_edges g es = Inr g' \<and>
         (\<forall>n < length (store g). graph_neighbours g' n =
            Inr (rev (map snd (filter (\<lambda>e. fst e = n) es)) @ adjacent_nodes (store g ! n)))"
    by (auto simp: graph_neighbours_def deref_def)
qed

text \<open>
  Witness for C6: three insertions into the graph A \<rightarrow> B \<rightarrow> C, and one single insertion.
\<close>

theorem insert_edge_prepends_witness:
  "(\<exists>g'. insert_edges abc_graph [(0, 2), (0, 0), (1, 0)] = Inr g' \<and>
      graph_neighbours g' 0 = Inr [0, 2, 1] \<and> graph_neighbours g' 1 = Inr [0, 2]) \<and>
   (\<exists>g'. graph_insert_edge abc_graph 2 1 = Inr g' \<and> graph_neighbours g' 2 = Inr [1])"
proof -
  have len: "length (store abc_graph) = 3" by (simp add: abc_graph_def)
  have 1: "\<forall>e \<in> set [(0, 2), (0, 0), (1, 0)]. fst e < length (store abc_graph)"
    by (simp add: len)
  have 2: "(2::nat) < length (store abc_graph)" by (simp add: len)
  from insert_edge_prepends [of 2 abc_graph 1 "[(0, 2), (0, 0), (1, 0)]"] 1 2
  obtain g' g'' where "insert_edges abc_graph [(0, 2), (0, 0), (1, 0)] = Inr g'"
     "\<forall>n < length (store abc_graph). graph_neighbours g' n =
            Inr (rev (map snd (filter (\<lambda>e. fst e = n) [(0, 2), (0, 0), (1, 0)])) @ adjacent_nodes (store abc_graph ! n))"
     "graph_insert_edge abc_graph 2 1 = Inr g''"
     "graph_neighbours g'' 2 = Inr (1 # adjacent_nodes (store abc_graph ! 2))"
    by blast
  then show ?thesis by (simp add: abc_graph_def)
qed

text \<open>
  C7: when a line that \<open>add_edges_to_list\<close> reads as an edge has a name with a
  character that is not alphanumeric, \<open>info_from_file\<close> ends with an error, and so does
  \<open>prepare_graph\<close>, which creates the graph only after \<open>info_from_file\<close> has returned:
  no graph exists, and nothing is inserted.
\<close>

theorem bad_name_no_graph:
  assumes "\<exists>line \<in> set (file_lines (snd (snd (read_edge_count fp)))).
             is_edge_line line \<and> names_not_alnum line"
  shows "\<exists>e. info_from_file ins (Some fp) l = Inl e \<and> prepare_graph ins (Some fp) l = Inl e"
proof -
  obtain found E fp1 where r: "read_edge_count fp = (found, E, fp1)"
    by (cases "read_edge_count fp") auto
  from assms r add_edges_loop_bad_line [of fp1 ins l "list_first l"]
  obtain e where e: "add_edges_to_list ins fp1 l = Inl e" by (auto simp: add_edges_to_list_def)
  have "\<exists>e. info_from_file ins (Some fp) l = Inl e"
    using r e
    by (auto simp: info_from_file_def get_number_of_edges_def split: sum.splits if_splits)
  then show ?thesis by (auto simp: prepare_graph_def)
qed

text \<open>
  Witness for C7 on a file whose second edge line names the node a-b.
\<close>

theorem bad_name_no_graph_witness:
  "info_from_file list_insert (Some bad_name_file) [] = Inl Exit_failure \<and>
   prepare_graph list_insert (Some bad_name_file) [] = Inl Exit_failure"
proof -
  have "\<exists>line \<in> set (file_lines (snd (snd (read_edge_count bad_name_file)))).
             is_edge_line line \<and> names_not_alnum line"
    using bad_name_file_bad by (simp add: bad_name_file_lines)
  from bad_name_no_graph [OF this, of list_insert "[]"] bad_name_file_exit show ?thesis by auto
qed

text \<open>
  C8: on a well-formed graph, \<open>find_path\<close> from a node to itself returns false when no
  adjacency list holds the node; with all flags clear it returns true exactly when a
  walk of at least one edge leads from the node back to it.
\<close>

theorem find_path_self:
  assumes "wf_graph g" and "a < length (store g)"
  shows "((\<forall>n \<in> set (store g). a \<notin> set (adjacent_nodes n)) \<longrightarrow>
           (\<exists>g'. find_path g a a = Inr (False, g'))) \<and>
         (all_unseen g \<longrightarrow> find_path g a a = Inr ((a, a) \<in> (edges g)\<^sup>+, g))"
proof (intro conjI impI)
  from find_path_result [OF assms(1,2,2)] obtain r where
    r: "find_path g a a = Inr (r, cleared g)"
       "r \<longrightarrow> (\<exists>u < length (store g). a \<in> set (adjacent_nodes (store g ! u)))"
       "all_unseen g \<longrightarrow> (r \<longleftrightarrow> (a, a) \<in> (edges g)\<^sup>+)"
    by blast
  {
    assume "\<forall>n \<in> set (store g). a \<notin> set (adjacent_nodes n)"
    with r(2) have "\<not> r" by auto
    with r(1) show "\<exists>g'. find_path g a a = Inr (False, g')" by simp
  next
    assume "all_unseen g"
    with r(1,3) cleared_all_unseen [of g]
    show "find_path g a a = Inr ((a, a) \<in> (edges g)\<^sup>+, g)" by simp
  }
qed

text \<open>
  Witness for C8 on the graph A \<rightarrow> B \<rightarrow> C, where nothing points to A.
\<close>

theorem find_path_self_witness:
  "wf_graph abc_graph \<and> (\<exists>g'. find_path abc_graph 0 0 = Inr (False, g')) \<and>
   (0, 0) \<notin> (edges abc_graph)\<^sup>+"
proof -
  have 1: "\<forall>n \<in> set (store abc_graph). 0 \<notin> set (adjacent_nodes n)"
    by (simp add: abc_graph_def)
  have 2: "(0::nat) < length (store abc_graph)" by (simp add: abc_graph_length)
  note T = find_path_self [OF abc_graph_wf 2]
  from T 1 have 3: "\<exists>g'. find_path abc_graph 0 0 = Inr (False, g')" by blast
  from T abc_graph_unseen
  have "find_path abc_graph 0 0 = Inr ((0, 0) \<in> (edges abc_graph)\<^sup>+, abc_graph)" by blast
  with abc_find_path_AA 3 abc_graph_wf show ?thesis by simp
qed

text \<open>
  C9: the loop of \<open>find_path\<close> terminates from every graph, destination and queue.
  \<open>visit_node\<close> marks the node seen, and enqueues it only when it was not seen before;
  every iteration of the outer loop that goes on decreases twice the number of unseen
  nodes plus the length of the queue; and on a well-formed graph \<open>find_path\<close> returns a
  result.
\<close>

theorem find_path_terminates:
  "bfs_loop_dom (g, d, q) \<and>
   (\<forall>n q0 g1 q1. visit_node g n q0 = Inr (g1, q1) \<longrightarrow>
      seen_set g1 = insert n (seen_set g) \<and>
      (if n \<in> seen_set g then q1 = q0 else q1 = queue_enqueue q0 n)) \<and>
   (\<forall>ns g' q'. \<not> queue_is_empty q \<and> graph_neighbours g (queue_front q) = Inr ns \<and>
      scan_neighbours g d (queue_dequeue q) (copy_neighbours ns dlist_empty) = Inr (False, g', q') \<longrightarrow>
      2 * unseen_count g' + length q' < 2 * unseen_count g + length q) \<and>
   (wf_graph g \<and> a < length (store g) \<and> d < length (store g) \<longrightarrow>
      (\<exists>r g'. find_path g a d = Inr (r, g')))"
proof (intro conjI allI impI)
  show "bfs_loop_dom (g, d, q)" using bfs_loop_total by blast
next
  fix n q0 g1 q1 assume "visit_node g n q0 = Inr (g1, q1)"
  from visit_node_enqueue [OF this]
  show "seen_set g1 = insert n (seen_set g)"
    and "if n \<in> seen_set g then q1 = q0 else q1 = queue_enqueue q0 n"
    by simp_all
next
  fix ns g' q'
  assume "\<not> queue_is_empty q \<and> graph_neighbours g (queue_front q) = Inr ns \<and>
      scan_neighbours g d (queue_dequeue q) (copy_neighbours ns dlist_empty) = Inr (False, g', q')"
  then show "2 * unseen_count g' + length q' < 2 * unseen_count g + length q"
    using outer_iteration_decreases by blast
next
  assume "wf_graph g \<and> a < length (store g) \<and> d < length (store g)"
  then show "\<exists>r g'. find_path g a d = Inr (r, g')"
    using find_path_result [of g a d] by blast
qed

text \<open>
  Witness for C9 on the graph A \<rightarrow> B \<rightarrow> C with A marked seen and in the queue.
\<close>

theorem find_path_terminates_witness:
  "bfs_loop_dom (abc_graph_A_seen, 2, [0]) \<and>
   seen_set (abc_graph_A_seen\<lparr>store := (store abc_graph_A_seen)[1 := (store abc_graph_A_seen ! 1)\<lparr>seen := True\<rparr>]\<rparr>)
     = insert 1 (seen_set abc_graph_A_seen) \<and>
   2 * unseen_count (abc_graph_A_seen\<lparr>store := (store abc_graph_A_seen)[1 := (store abc_graph_A_seen ! 1)\<lparr>seen := True\<rparr>]\<rparr>) + length [1::nat]
     < 2 * unseen_count abc_graph_A_seen + length [0::nat] \<and>
   (\<exists>r g'. find_path abc_graph_A_seen 0 2 = Inr (r, g'))"
proof -
  let ?g = abc_graph_A_seen
  let ?g1 = "?g\<lparr>store := (store ?g)[1 := (store ?g ! 1)\<lparr>seen := True\<rparr>]\<rparr>"
  note T = find_path_terminates [of ?g 2 "[0]" 0]
  have v: "visit_node ?g 1 [] = Inr (?g1, [1])" by code_simp
  have q: "\<not> queue_is_empty [0::nat]" by (simp add: queue_is_empty_def)
  have n: "graph_neighbours ?g (queue_front [0]) = Inr [1]" by code_simp
  have s: "scan_neighbours ?g 2 (queue_dequeue [0]) (copy_neighbours [1] dlist_empty) = Inr (False, ?g1, [1])"
    by code_simp
  have w: "wf_graph ?g" by code_simp
  have l: "(0::nat) < length (store ?g)" "(2::nat) < length (store ?g)"
    by (simp_all add: abc_graph_A_seen_def abc_graph_length)
  from T v have "seen_set ?g1 = insert 1 (seen_set ?g)" by blast
  moreover from T q n s have "2 * unseen_count ?g1 + length [1::nat] < 2 * unseen_count ?g + length [0::nat]"
    by blast
  moreover from T w l have "\<exists>r g'. find_path ?g 0 2 = Inr (r, g')" by blast
  moreover from T have "bfs_loop_dom (?g, 2, [0])" by blast
  ultimately show ?thesis by blast
qed

text \<open>
  C10: \<open>graph_choose_node\<close> returns \<open>NULL\<close> when the node count is zero, without reading
  the array; when the count is positive it returns the pointer in the lowest occupied
  slot of the array.
\<close>

theorem graph_choose_node_result:
  "(node_amount g \<le> 0 \<longrightarrow> graph_choose_node g = Inr None) \<and>
   (0 < node_amount g \<and> nodes g = Some a \<and> length (vals a) = nat (high a - low a + 1) \<and>
    low a \<le> i \<and> i \<le> high a \<and> vals a ! nat (i - low a) = Some p \<and>
    (\<forall>j \<in> set [low a .. i - 1]. vals a ! nat (j - low a) = None) \<longrightarrow>
      graph_choose_node g = Inr (Some p))"
proof (intro conjI impI)
  assume "node_amount g \<le> 0"
  then show "graph_choose_node g = Inr None" by (simp add: graph_choose_node_def)
next
  assume h: "0 < node_amount g \<and> nodes g = Some a \<and> length (vals a) = nat (high a - low a + 1) \<and>
    low a \<le> i \<and> i \<le> high a \<and> vals a ! nat (i - low a) = Some p \<and>
    (\<forall>j \<in> set [low a .. i - 1]. vals a ! nat (j - low a) = None)"
  then have ok: "slot_ok a j" if "low a \<le> j" "j \<le> high a" for j
    using that by (auto simp: slot_ok_def)
  have split: "[low a .. high a] = [low a .. i - 1] @ i # [i + 1 .. high a]"
    using h by (simp add: upto_split3)
  have pre: "\<forall>j \<in> set [low a .. i - 1]. slot_ok a j \<and> vals a ! nat (j - low a) = None"
    using h ok by auto
  have "choose_loop (Some a) [low a .. high a] = Inr (Some p)"
    unfolding split using choose_loop_skip [OF pre] choose_loop_hit [of a i p] ok [of i] h
    by simp
  with h show "graph_choose_node g = Inr (Some p)"
    by (simp add: graph_choose_node_def array_1d_low_def array_1d_high_def)
qed

text \<open>
  Witness for C10 on a fresh graph and on the graph A \<rightarrow> B \<rightarrow> C.
\<close>

theorem graph_choose_node_result_witness:
  "graph_choose_node (graph_empty 4) = Inr None \<and> graph_choose_node abc_graph = Inr (Some 0)"
proof -
  have "node_amount (graph_empty 4) \<le> 0" by (simp add: graph_empty_def)
  with graph_choose_node_result [of "graph_empty 4"]
  have 1: "graph_choose_node (graph_empty 4) = Inr None" by blast
  let ?a = "\<lparr>low = 0, high = 8,
              vals = [Some 0, Some 1, Some 2, None, None, None, None, None, None]\<rparr>"
  have "0 < node_amount abc_graph \<and> nodes abc_graph = Some ?a \<and>
        length (vals ?a) = nat (high ?a - low ?a + 1) \<and>
        low ?a \<le> 0 \<and> 0 \<le> high ?a \<and> vals ?a ! nat (0 - low ?a) = Some 0 \<and>
        (\<forall>j \<in> set [low ?a .. 0 - 1]. vals ?a ! nat (j - low ?a) = None)"
    by (simp add: abc_graph_def)
  with graph_choose_node_result [of abc_graph ?a 0 0]
  have "graph_choose_node abc_graph = Inr (Some 0)" by blast
  with 1 show ?thesis by simp
qed

end
